theory Spec2Isabelle
  imports Complex_Main "HOL-Library.Multiset"
begin

section \<open>Data model of \<open>src/caffe/parallel.cpp\<close>\<close>

text \<open>
  The file is modelled for a build without \<open>CPU_ONLY\<close> and without \<open>DEBUG\<close>.
  A fatal \<open>CHECK\<close> or \<open>HIP_CHECK\<close>, an out-of-range access and a thrown exception are
  values of type \<open>error\<close>; a function that can end in one returns \<open>error + 'a\<close>.
\<close>

datatype error =
    CheckFailed       \<comment> \<open>a glog \<open>CHECK\<close> failed: the process aborts\<close>
  | HipFailed         \<comment> \<open>\<open>HIP_CHECK\<close> saw a status other than \<open>hipSuccess\<close>: the process aborts\<close>
  | OutOfBounds       \<comment> \<open>\<open>operator[]\<close> or \<open>erase\<close> outside a vector: undefined behaviour\<close>
  | OutOfRangeThrown  \<comment> \<open>\<open>vector::at\<close> threw \<open>std::out_of_range\<close>\<close>
  | BadAccess         \<comment> \<open>an access outside an allocation, to a cell never written, or to a dead object\<close>
  | NullPointer       \<comment> \<open>a null pointer was dereferenced\<close>

definition and_then :: "error + 'a \<Rightarrow> ('a \<Rightarrow> error + 'b) \<Rightarrow> error + 'b" where
  "and_then r f = (case r of Inl e \<Rightarrow> Inl e | Inr x \<Rightarrow> f x)"

datatype Op = copy | replace_cpu | replace_gpu | replace_cpu_diff | replace_gpu_diff

text \<open>
  A \<open>Dtype*\<close> is an allocation and an element offset into it; \<open>ptr += n\<close> moves the
  offset. Byte sizes are not modelled: \<open>hipMalloc(&p, n * sizeof(Dtype))\<close> allocates
  \<open>n\<close> elements.
\<close>

datatype ptr = Ptr (block: nat) (offset: nat)

definition ptr_add :: "ptr \<Rightarrow> nat \<Rightarrow> ptr" where
  "ptr_add p n = Ptr (block p) (offset p + n)"

definition ptr_diff :: "ptr \<Rightarrow> ptr \<Rightarrow> nat" where
  "ptr_diff p q = offset p - offset q"

text \<open>
  Modelled from the spec: \<open>Blob\<close> is declared outside this file (the driver's
  parameter tensors). A \<open>Blob<Dtype>\<close>, as far as this file uses it: \<open>count()\<close>, the host-side values that
  \<open>data()->cpu_data()\<close> returns, and the four storage pointers that
  \<open>data()->set_cpu_data\<close>, \<open>data()->set_gpu_data\<close>, \<open>diff()->set_cpu_data\<close> and
  \<open>diff()->set_gpu_data\<close> rebind (\<open>None\<close>: not rebound).
\<close>

record 'a Blob =
  blob_count :: nat
  cpu_data :: "'a list"
  data_cpu_ptr :: "ptr option"
  data_gpu_ptr :: "ptr option"
  diff_cpu_ptr :: "ptr option"
  diff_gpu_ptr :: "ptr option"

text \<open>
  Modelled from the spec: \<open>SolverParameter\<close> is declared outside this file; these are the
  fields this file reads or writes.
\<close>

record SolverParameter =
  device_id :: int
  max_iter :: int
  random_seed :: int

text \<open>
  Modelled from the spec: \<open>Solver\<close> is the training driver, declared outside this file.
  A \<open>Solver<Dtype>\<close>: its \<open>param()\<close>, the \<open>net()->learnable_params()\<close> vector of
  \<open>Blob*\<close>, \<open>iter()\<close> and the callbacks registered by \<open>add_callback\<close>.
\<close>

record Solver =
  param :: SolverParameter
  learnable_params :: "nat list"
  iter :: int
  callbacks :: "nat list"

text \<open>
  \<open>Params\<close> (and \<open>GPUParams\<close>, which adds no member), and \<open>P2PSync\<close> derived from it.
  Objects are referred to by address; \<open>parent_\<close>, \<open>children_\<close> and the mailbox
  \<open>queue_\<close> hold addresses of \<open>P2PSync\<close> objects, \<open>solver_\<close> the address of a
  \<open>Solver\<close>. \<open>parent_grads_\<close> is \<open>None\<close> while the constructor has not assigned it.
  A member \<open>m_\<close> of the source is written \<open>m_'\<close>: an Isabelle name cannot end in an
  underscore.
\<close>

record Params =
  size_' :: nat
  data_' :: ptr
  diff_' :: ptr

record P2PSync = Params +
  device_' :: int
  parent_' :: "nat option"
  children_' :: "nat list"
  queue_' :: "nat list"
  initial_iter_' :: int
  solver_' :: nat
  parent_grads_' :: "ptr option"

datatype DevicePair = DevicePair (parent: int) (device: int)

text \<open>
  The state the functions work on: the \<open>Blob\<close>, \<open>Solver\<close> and \<open>P2PSync\<close> objects by
  address (with the next free address of each kind), the device allocations (the
  device an allocation is on, and its cells: a cell is \<open>None\<close> until it is written),
  the calling thread's active device, the peer accesses enabled, the process-wide
  settings \<open>Caffe::root_solver()\<close> and \<open>Caffe::solver_count()\<close>, the \<open>P2PSync\<close> objects
  whose internal thread is running, and the solvers on which \<open>Solve()\<close> was called.
\<close>

record 'a world =
  blobs :: "nat \<Rightarrow> 'a Blob"
  next_blob :: nat
  solvers :: "nat \<Rightarrow> Solver"
  next_solver :: nat
  p2psyncs :: "nat \<Rightarrow> P2PSync"
  next_sync :: nat
  mem :: "nat \<rightharpoonup> int \<times> 'a option list"
  next_block :: nat
  current_device :: int
  peer_enabled :: "(int \<times> int) set"
  root_solver_flag :: bool
  solver_count :: nat
  threads :: "nat list"
  solved :: "nat list"

text \<open>
  The accelerator runtime decides which calls succeed; the model takes its answers as
  a parameter. \<open>hipDeviceCanAccessPeer\<close> answers \<open>None\<close> for an error status and
  otherwise the \<open>access\<close> flag.
\<close>

record hip =
  hipSetDevice_ok :: "int \<Rightarrow> bool"
  hipMalloc_ok :: "int \<Rightarrow> nat \<Rightarrow> bool"
  hipGetDeviceProperties_ok :: "int \<Rightarrow> bool"
  hipDeviceCanAccessPeer :: "int \<Rightarrow> int \<Rightarrow> bool option"
  hipDeviceEnablePeerAccess_ok :: "int \<Rightarrow> int \<Rightarrow> bool"
  hipDeviceDisablePeerAccess_ok :: "int \<Rightarrow> int \<Rightarrow> bool"

section \<open>Runtime calls and numeric kernels\<close>

definition hipSetDevice :: "hip \<Rightarrow> int \<Rightarrow> 'a world \<Rightarrow> error + 'a world" where
  "hipSetDevice h d w =
     (if hipSetDevice_ok h d then Inr (w\<lparr>current_device := d\<rparr>) else Inl HipFailed)"

text \<open>\<open>hipMalloc\<close> of \<open>n\<close> elements on the active device: a new allocation of unwritten cells.\<close>

definition hipMalloc :: "hip \<Rightarrow> nat \<Rightarrow> 'a world \<Rightarrow> error + (ptr \<times> 'a world)" where
  "hipMalloc h n w =
     (if hipMalloc_ok h (current_device w) n
      then Inr (Ptr (next_block w) 0,
                w\<lparr>mem := (mem w)(next_block w \<mapsto> (current_device w, replicate n None)),
                  next_block := Suc (next_block w)\<rparr>)
      else Inl HipFailed)"

text \<open>\<open>hipFree\<close> succeeds on the start of a live allocation.\<close>

definition hipFree :: "ptr \<Rightarrow> 'a world \<Rightarrow> error + 'a world" where
  "hipFree p w =
     (if offset p = 0 \<and> mem w (block p) \<noteq> None
      then Inr (w\<lparr>mem := (mem w)(block p := None)\<rparr>)
      else Inl HipFailed)"

definition write_cells ::
  "ptr \<Rightarrow> 'a list \<Rightarrow> (nat \<rightharpoonup> int \<times> 'a option list) \<Rightarrow> error + (nat \<rightharpoonup> int \<times> 'a option list)" where
  "write_cells p vs m =
     (case m (block p) of
        None \<Rightarrow> Inl BadAccess
      | Some (d, cells) \<Rightarrow>
          if offset p + length vs \<le> length cells
          then Inr (m(block p \<mapsto>
                 (d, take (offset p) cells @ map Some vs @ drop (offset p + length vs) cells)))
          else Inl BadAccess)"

definition read_cells ::
  "ptr \<Rightarrow> nat \<Rightarrow> (nat \<rightharpoonup> int \<times> 'a option list) \<Rightarrow> error + 'a list" where
  "read_cells p n m =
     (case m (block p) of
        None \<Rightarrow> Inl BadAccess
      | Some (d, cells) \<Rightarrow>
          if offset p + n \<le> length cells \<and> None \<notin> set (take n (drop (offset p) cells))
          then Inr (map the (take n (drop (offset p) cells)))
          else Inl BadAccess)"

text \<open>
  Modelled from the spec: the numeric kernel \<open>copy(n, src, dst)\<close> is not in this file.
  \<open>caffe_copy(n, src, dst)\<close> with a host source: the first \<open>n\<close> host values are written
  to the \<open>n\<close> cells from \<open>dst\<close> on. Reading past the host array or writing outside the
  allocation is an error.
\<close>

definition caffe_copy :: "nat \<Rightarrow> 'a list \<Rightarrow> ptr \<Rightarrow> 'a world \<Rightarrow> error + 'a world" where
  "caffe_copy n src dst w =
     (if length src < n then Inl BadAccess
      else and_then (write_cells dst (take n src) (mem w)) (\<lambda>m. Inr (w\<lparr>mem := m\<rparr>)))"

text \<open>
  Modelled from the spec: the numeric kernel \<open>set(n, value, dst)\<close> is not in this file.
  \<open>caffe_gpu_set(n, alpha, y)\<close>: \<open>y[k] = alpha\<close> for \<open>k < n\<close>.
\<close>

definition caffe_gpu_set :: "nat \<Rightarrow> 'a \<Rightarrow> ptr \<Rightarrow> 'a world \<Rightarrow> error + 'a world" where
  "caffe_gpu_set n alpha y w =
     and_then (write_cells y (replicate n alpha) (mem w)) (\<lambda>m. Inr (w\<lparr>mem := m\<rparr>))"

text \<open>
  \<open>Dtype\<close> is \<open>float\<close> or \<open>double\<close>, whose arithmetic rounds. The model takes the
  arithmetic as a parameter: \<open>dtype_add x y\<close> is \<open>x + y\<close> and \<open>dtype_mul x y\<close> is \<open>x * y\<close>
  as \<open>Dtype\<close> computes them, and \<open>dtype_inv n\<close> is \<open>Dtype(1.0 / n)\<close> for an \<open>int n\<close>, the
  quotient of two \<open>double\<close> converted to \<open>Dtype\<close>.
\<close>

record 'a arithmetic =
  dtype_add :: "'a \<Rightarrow> 'a \<Rightarrow> 'a"
  dtype_mul :: "'a \<Rightarrow> 'a \<Rightarrow> 'a"
  dtype_inv :: "nat \<Rightarrow> 'a"

text \<open>
  Modelled from the spec: the numeric kernel \<open>add(n, a, b, dst)\<close>, element-wise, is not
  in this file. \<open>caffe_gpu_add(n, a, b, y)\<close>: \<open>y[k] = a[k] + b[k]\<close> for \<open>k < n\<close>.
\<close>

definition caffe_gpu_add ::
  "'a arithmetic \<Rightarrow> nat \<Rightarrow> ptr \<Rightarrow> ptr \<Rightarrow> ptr \<Rightarrow> 'a world \<Rightarrow> error + 'a world" where
  "caffe_gpu_add ar n a b y w =
     and_then (read_cells a n (mem w)) (\<lambda>as.
     and_then (read_cells b n (mem w)) (\<lambda>bs.
     and_then (write_cells y (map2 (dtype_add ar) as bs) (mem w)) (\<lambda>m. Inr (w\<lparr>mem := m\<rparr>))))"

text \<open>
  Modelled from the spec: the numeric kernel \<open>scale(n, alpha, dst)\<close>, a scalar multiply,
  is not in this file. \<open>caffe_gpu_scal(n, alpha, x)\<close>: \<open>x[k] = alpha * x[k]\<close> for \<open>k < n\<close>.
\<close>

definition caffe_gpu_scal ::
  "'a arithmetic \<Rightarrow> nat \<Rightarrow> 'a \<Rightarrow> ptr \<Rightarrow> 'a world \<Rightarrow> error + 'a world" where
  "caffe_gpu_scal ar n alpha x w =
     and_then (read_cells x n (mem w)) (\<lambda>xs.
     and_then (write_cells x (map (dtype_mul ar alpha) xs) (mem w)) (\<lambda>m. Inr (w\<lparr>mem := m\<rparr>)))"

text \<open>
  \<open>hipMemcpyAsync(dst, src, n * sizeof(Dtype), hipMemcpyDeviceToDevice, hipStreamDefault)\<close>
  followed by \<open>hipStreamSynchronize(hipStreamDefault)\<close>: when both return, the \<open>n\<close>
  cells of \<open>src\<close> are in \<open>dst\<close>.
\<close>

definition hipMemcpy_sync :: "ptr \<Rightarrow> ptr \<Rightarrow> nat \<Rightarrow> 'a world \<Rightarrow> error + 'a world" where
  "hipMemcpy_sync dst src n w =
     and_then (read_cells src n (mem w)) (\<lambda>vs.
     and_then (write_cells dst vs (mem w)) (\<lambda>m. Inr (w\<lparr>mem := m\<rparr>)))"

section \<open>The flat buffer manager\<close>

text \<open>One iteration of the loop of \<open>apply_buffers\<close>: the \<open>switch (op)\<close> on the tensor at \<open>b\<close>.\<close>

definition apply_op :: "Op \<Rightarrow> nat \<Rightarrow> ptr \<Rightarrow> 'a world \<Rightarrow> error + 'a world" where
  "apply_op op b p w =
     (case op of
        copy \<Rightarrow> caffe_copy (blob_count (blobs w b)) (cpu_data (blobs w b)) p w
      | replace_cpu \<Rightarrow> Inr (w\<lparr>blobs := (blobs w)(b := (blobs w b)\<lparr>data_cpu_ptr := Some p\<rparr>)\<rparr>)
      | replace_gpu \<Rightarrow> Inr (w\<lparr>blobs := (blobs w)(b := (blobs w b)\<lparr>data_gpu_ptr := Some p\<rparr>)\<rparr>)
      | replace_cpu_diff \<Rightarrow> Inr (w\<lparr>blobs := (blobs w)(b := (blobs w b)\<lparr>diff_cpu_ptr := Some p\<rparr>)\<rparr>)
      | replace_gpu_diff \<Rightarrow> Inr (w\<lparr>blobs := (blobs w)(b := (blobs w b)\<lparr>diff_gpu_ptr := Some p\<rparr>)\<rparr>))"

text \<open>
  The loop \<open>for (int i = 0; i < blobs.size(); ++i)\<close> over the vector of \<open>Blob*\<close>, with
  the running \<open>ptr\<close>; it returns the final \<open>ptr\<close>.
\<close>

fun apply_loop :: "Op \<Rightarrow> nat list \<Rightarrow> ptr \<Rightarrow> 'a world \<Rightarrow> error + (ptr \<times> 'a world)" where
  "apply_loop op [] p w = Inr (p, w)"
| "apply_loop op (b # bs) p w =
     (case apply_op op b p w of
        Inl e \<Rightarrow> Inl e
      | Inr w' \<Rightarrow> apply_loop op bs (ptr_add p (blob_count (blobs w b))) w')"

text \<open>
  \<open>apply_buffers\<close>: the loop, then
  \<open>CHECK_EQ(total_size, (ptr == buffer ? 1 : ptr - buffer))\<close>.
\<close>

definition apply_buffers :: "nat list \<Rightarrow> ptr \<Rightarrow> nat \<Rightarrow> Op \<Rightarrow> 'a world \<Rightarrow> error + 'a world" where
  "apply_buffers bs buffer total_sz op w =
     (case apply_loop op bs buffer w of
        Inl e \<Rightarrow> Inl e
      | Inr (p, w') \<Rightarrow>
          if total_sz = (if p = buffer then 1 else ptr_diff p buffer) then Inr w'
          else Inl CheckFailed)"

text \<open>
  \<open>total_size\<close>: the accumulator is a \<open>size_t\<close>, so each addition is modulo \<open>2 ^ 64\<close>.
\<close>

definition total_size :: "'a world \<Rightarrow> nat list \<Rightarrow> nat" where
  "total_size w params =
     (let sz = fold (\<lambda>b s. (s + blob_count (blobs w b)) mod 2 ^ 64) params 0
      in if sz > 0 then sz else 1)"

text \<open>
  The constructor of \<open>Params\<close> computes \<open>size_'\<close>; \<open>data_'\<close> and \<open>diff_'\<close> start null and are
  assigned by the constructor of \<open>GPUParams\<close> before anything reads them.
\<close>

definition Params_ctor :: "nat \<Rightarrow> 'a world \<Rightarrow> nat" where
  "Params_ctor root_solver w = total_size w (learnable_params (solvers w root_solver))"

definition GPUParams_ctor :: "hip \<Rightarrow> nat \<Rightarrow> int \<Rightarrow> 'a::zero world \<Rightarrow> error + (Params \<times> 'a world)" where
  "GPUParams_ctor h root_solver dev w =
     (let sz = Params_ctor root_solver w;
          initial_device = current_device w
      in and_then (hipSetDevice h dev w) (\<lambda>w1.
         and_then (hipMalloc h sz w1) (\<lambda>(data_p, w2).
         and_then (apply_buffers (learnable_params (solvers w2 root_solver)) data_p sz copy w2) (\<lambda>w3.
         and_then (hipMalloc h sz w3) (\<lambda>(diff_p, w4).
         and_then (caffe_gpu_set sz 0 diff_p w4) (\<lambda>w5.
         and_then (hipSetDevice h initial_device w5) (\<lambda>w6.
         Inr (\<lparr>size_' = sz, data_' = data_p, diff_' = diff_p\<rparr>, w6))))))))"

definition GPUParams_dtor :: "'b Params_scheme \<Rightarrow> 'a world \<Rightarrow> error + 'a world" where
  "GPUParams_dtor this w = and_then (hipFree (data_' this) w) (hipFree (diff_' this))"

definition configure :: "'b Params_scheme \<Rightarrow> nat \<Rightarrow> 'a world \<Rightarrow> error + 'a world" where
  "configure this solver w =
     (let net = learnable_params (solvers w solver)
      in and_then (apply_buffers net (data_' this) (size_' this) replace_gpu w)
           (apply_buffers net (diff_' this) (size_' this) replace_gpu_diff))"

section \<open>The topology planner\<close>

text \<open>
  \<open>static_cast<int>(ceil(log2((float)n)))\<close>: the least \<open>d\<close> with \<open>n \<le> 2 ^ d\<close>. The
  floating-point computation gives this value for every vector size below \<open>2 ^ 20\<close>.
  For \<open>n = 0\<close> the source converts minus infinity to \<open>int\<close>; the loops that use the
  result then make no pass, which is the value \<open>0\<close> here.
\<close>

function remaining_depth :: "nat \<Rightarrow> nat" where
  "remaining_depth n = (if n \<le> 1 then 0 else Suc (remaining_depth ((n + 1) div 2)))"
  by pat_completeness auto
termination
  by (relation "measure id") auto

text \<open>\<open>v.erase(v.begin() + j)\<close> for \<open>j\<close> inside the vector.\<close>

definition erase :: "nat \<Rightarrow> 'a list \<Rightarrow> 'a list" where
  "erase j xs = take j xs @ drop (Suc j) xs"

text \<open>
  Phase 1 (group by board). The pairing is commented out in the source; what is left
  of a pass are the two \<open>HIP_CHECK(hipGetDeviceProperties(...))\<close> calls for every
  \<open>i < j\<close>. A pass changes nothing, so the phase only succeeds or aborts.
\<close>

definition board_pass :: "hip \<Rightarrow> int list \<Rightarrow> bool" where
  "board_pass h remaining =
     list_all (\<lambda>(i, j). hipGetDeviceProperties_ok h (remaining ! i)
                       \<and> hipGetDeviceProperties_ok h (remaining ! j))
       (concat (map (\<lambda>i. map (Pair i) [Suc i ..< length remaining]) [0 ..< length remaining]))"

fun board_d :: "hip \<Rightarrow> nat \<Rightarrow> int list \<Rightarrow> error + unit" where
  "board_d h 0 remaining = Inr ()"
| "board_d h (Suc d) remaining =
     (if board_pass h remaining then board_d h d remaining else Inl HipFailed)"

text \<open>
  Phase 2 (group by P2P accessibility). \<open>p2p_j\<close> is the loop over \<open>j\<close>: it returns the
  first \<open>j\<close> from the given one on that \<open>remaining[i]\<close> can access, if any. \<open>p2p_i\<close> is
  the loop over \<open>i\<close> from the given \<open>i\<close> on, with \<open>remaining\<close> and \<open>pairs\<close> as they are
  updated; \<open>p2p_d\<close> runs the given number of passes.
\<close>

function p2p_j :: "hip \<Rightarrow> int list \<Rightarrow> nat \<Rightarrow> nat \<Rightarrow> error + nat option" where
  "p2p_j h remaining i j =
     (if j < length remaining
      then (case hipDeviceCanAccessPeer h (remaining ! i) (remaining ! j) of
              None \<Rightarrow> Inl HipFailed
            | Some access \<Rightarrow> if access then Inr (Some j) else p2p_j h remaining i (Suc j))
      else Inr None)"
  by pat_completeness auto
termination
  by (relation "measure (\<lambda>(h, remaining, i, j). length remaining - j)") auto

function p2p_i ::
  "hip \<Rightarrow> nat \<Rightarrow> int list \<times> DevicePair list \<Rightarrow> error + (int list \<times> DevicePair list)" where
  "p2p_i h i (remaining, pairs) =
     (if i < length remaining
      then (case p2p_j h remaining i (Suc i) of
              Inl e \<Rightarrow> Inl e
            | Inr None \<Rightarrow> p2p_i h (Suc i) (remaining, pairs)
            | Inr (Some j) \<Rightarrow>
                p2p_i h (Suc i)
                  (erase j remaining, pairs @ [DevicePair (remaining ! i) (remaining ! j)]))
      else Inr (remaining, pairs))"
  by pat_completeness auto
termination
  by (relation "measure (\<lambda>(h, i, remaining, pairs). length remaining - i)")
    (auto simp: erase_def)

fun p2p_d ::
  "hip \<Rightarrow> nat \<Rightarrow> int list \<times> DevicePair list \<Rightarrow> error + (int list \<times> DevicePair list)" where
  "p2p_d h 0 s = Inr s"
| "p2p_d h (Suc d) s = and_then (p2p_i h 0 s) (p2p_d h d)"

text \<open>
  Phase 3 (group remaining). The loop over \<open>i\<close> reads \<open>remaining[i + 1]\<close> and erases at
  \<open>i + 1\<close> whenever \<open>i < remaining.size()\<close>; outside the vector that is \<open>OutOfBounds\<close>.
\<close>

function fallback_i ::
  "nat \<Rightarrow> int list \<times> DevicePair list \<Rightarrow> error + (int list \<times> DevicePair list)" where
  "fallback_i i (remaining, pairs) =
     (if i < length remaining
      then (if Suc i < length remaining
            then fallback_i (Suc i)
                   (erase (Suc i) remaining,
                    pairs @ [DevicePair (remaining ! i) (remaining ! Suc i)])
            else Inl OutOfBounds)
      else Inr (remaining, pairs))"
  by pat_completeness auto
termination
  by (relation "measure (\<lambda>(i, remaining, pairs). length remaining - i)")
    (auto simp: erase_def)

fun fallback_d ::
  "nat \<Rightarrow> int list \<times> DevicePair list \<Rightarrow> error + (int list \<times> DevicePair list)" where
  "fallback_d 0 s = Inr s"
| "fallback_d (Suc d) s = and_then (fallback_i 0 s) (fallback_d d)"

text \<open>
  The checks that end \<open>DevicePair::compute\<close>, after the root pair was inserted in
  front: the size, and for every \<open>i\<close> that \<open>parent \<noteq> device\<close> and that no later pair has
  the same device.
\<close>

definition final_checks :: "int list \<Rightarrow> DevicePair list \<Rightarrow> bool" where
  "final_checks devices pairs \<longleftrightarrow>
     length pairs = length devices
     \<and> list_all (\<lambda>p. parent p \<noteq> device p) pairs
     \<and> distinct (map device pairs)"

text \<open>
  \<open>DevicePair::compute(devices, pairs)\<close>; \<open>pairs\<close> is the vector the caller passes, and
  the result is its final content.
\<close>

definition compute :: "hip \<Rightarrow> int list \<Rightarrow> DevicePair list \<Rightarrow> error + DevicePair list" where
  "compute h devices pairs =
     and_then (board_d h (remaining_depth (length devices)) devices) (\<lambda>_.
     and_then (p2p_d h (remaining_depth (length devices)) (devices, pairs)) (\<lambda>(remaining1, pairs1).
     and_then (fallback_d (remaining_depth (length remaining1)) (remaining1, pairs1))
       (\<lambda>(remaining2, pairs2).
     if length remaining2 \<noteq> 1 then Inl CheckFailed
     else if final_checks devices (DevicePair (- 1) (remaining2 ! 0) # pairs2)
          then Inr (DevicePair (- 1) (remaining2 ! 0) # pairs2)
          else Inl CheckFailed)))"

section \<open>The replica node\<close>

text \<open>
  Modelled from the spec: the training driver is an external collaborator, and
  \<open>WorkerSolver\<close> is not in this file. \<open>new WorkerSolver<Dtype>(param, root_solver)\<close> is
  a new \<open>Solver\<close> with the given \<open>param\<close>, whose net has its own learnable tensors, one
  for each of the root solver's and of the same element counts.
\<close>

definition new_WorkerSolver :: "SolverParameter \<Rightarrow> nat \<Rightarrow> 'a world \<Rightarrow> nat \<times> 'a world" where
  "new_WorkerSolver prm root_solver w =
     (let src = learnable_params (solvers w root_solver);
          addrs = [next_blob w ..< next_blob w + length src];
          fresh = (\<lambda>b. \<lparr>blob_count = blob_count (blobs w b), cpu_data = cpu_data (blobs w b),
                       data_cpu_ptr = None, data_gpu_ptr = None,
                       diff_cpu_ptr = None, diff_gpu_ptr = None\<rparr>);
          s = \<lparr>param = prm, learnable_params = addrs, iter = 0, callbacks = []\<rparr>
      in (next_solver w,
          w\<lparr>blobs := fold (\<lambda>(a, b) f. f(a := fresh b)) (zip addrs src) (blobs w),
            next_blob := next_blob w + length src,
            solvers := (solvers w)(next_solver w := s),
            next_solver := Suc (next_solver w)\<rparr>))"

text \<open>
  Modelled from the spec: \<open>Solver::add_callback\<close> is not in this file; it registers the
  replica's hooks with the driver.
\<close>

definition add_callback :: "nat \<Rightarrow> nat \<Rightarrow> 'a world \<Rightarrow> 'a world" where
  "add_callback solver this w =
     w\<lparr>solvers := (solvers w)
         (solver := (solvers w solver)\<lparr>callbacks := callbacks (solvers w solver) @ [this]\<rparr>)\<rparr>"

definition hipDeviceEnablePeerAccess :: "hip \<Rightarrow> int \<Rightarrow> 'a world \<Rightarrow> error + 'a world" where
  "hipDeviceEnablePeerAccess h peer w =
     (if hipDeviceEnablePeerAccess_ok h (current_device w) peer
      then Inr (w\<lparr>peer_enabled := insert (current_device w, peer) (peer_enabled w)\<rparr>)
      else Inl HipFailed)"

definition hipDeviceDisablePeerAccess :: "hip \<Rightarrow> int \<Rightarrow> 'a world \<Rightarrow> error + 'a world" where
  "hipDeviceDisablePeerAccess h peer w =
     (if hipDeviceDisablePeerAccess_ok h (current_device w) peer
      then Inr (w\<lparr>peer_enabled := peer_enabled w - {(current_device w, peer)}\<rparr>)
      else Inl HipFailed)"

text \<open>
  The constructor of \<open>P2PSync\<close>, in three parts. First the choice of \<open>solver_'\<close>:
  the root solver when \<open>parent\<close> is null, a new \<open>WorkerSolver\<close> otherwise.
\<close>

definition ctor_solver :: "nat \<Rightarrow> nat option \<Rightarrow> SolverParameter \<Rightarrow> 'a world \<Rightarrow> nat \<times> 'a world" where
  "ctor_solver root_solver par prm w =
     (case par of
        None \<Rightarrow> (root_solver, w)
      | Some _ \<Rightarrow>
          (let (s, w1) = new_WorkerSolver prm root_solver (w\<lparr>root_solver_flag := False\<rparr>)
           in (s, w1\<lparr>root_solver_flag := True\<rparr>)))"

text \<open>
  Then the block \<open>if (parent) { ... }\<close>, run with the replica's device active: peer
  access is enabled when the runtime reports it, and \<open>parent_grads_'\<close> is allocated
  with the parent's device active. The result is the value of \<open>parent_grads_'\<close>.
\<close>

definition ctor_peer ::
  "hip \<Rightarrow> int \<Rightarrow> nat \<Rightarrow> nat option \<Rightarrow> 'a world \<Rightarrow> error + (ptr option \<times> 'a world)" where
  "ctor_peer h dev sz par w =
     (case par of
        None \<Rightarrow> Inr (None, w)
      | Some p \<Rightarrow>
          (let peer = device_id (param (solvers w (solver_' (p2psyncs w p))))
           in case hipDeviceCanAccessPeer h dev peer of
                None \<Rightarrow> Inl HipFailed
              | Some access \<Rightarrow>
                  and_then (if access then hipDeviceEnablePeerAccess h peer w else Inr w) (\<lambda>w1.
                  and_then (hipSetDevice h peer w1) (\<lambda>w2.
                  and_then (hipMalloc h sz w2) (\<lambda>(pg, w3).
                  and_then (hipSetDevice h dev w3) (\<lambda>w4.
                  Inr (Some pg, w4)))))))"

text \<open>
  The whole constructor, for the object at address \<open>this\<close>: the base constructor, the
  member initialisers, and the body. The finished object is stored at \<open>this\<close>.
\<close>

definition P2PSync_ctor ::
  "hip \<Rightarrow> nat \<Rightarrow> nat \<Rightarrow> nat option \<Rightarrow> SolverParameter \<Rightarrow> 'a::zero world \<Rightarrow> error + 'a world" where
  "P2PSync_ctor h this root_solver par prm w =
     and_then (GPUParams_ctor h root_solver (device_id prm) w) (\<lambda>(base, w1).
     let initial_iter = iter (solvers w1 root_solver);
         initial_device = current_device w1;
         dev = device_id prm
     in and_then (hipSetDevice h dev w1) (\<lambda>w2.
        let (slv, w3) = ctor_solver root_solver par prm w2
        in and_then (configure base slv w3) (\<lambda>w4.
           and_then (ctor_peer h dev (size_' base) par (add_callback slv this w4)) (\<lambda>(pg, w5).
           and_then (hipSetDevice h initial_device w5) (\<lambda>w6.
           Inr (w6\<lparr>p2psyncs := (p2psyncs w6)(this :=
                  \<lparr>size_' = size_' base, data_' = data_' base, diff_' = diff_' base,
                   device_' = dev, parent_' = par, children_' = [], queue_' = [],
                   initial_iter_' = initial_iter, solver_' = slv,
                   parent_grads_' = pg\<rparr>)\<rparr>))))))"

text \<open>\<open>new P2PSync<Dtype>(root_solver, parent, param)\<close>: the next free address, then the constructor.\<close>

definition new_P2PSync ::
  "hip \<Rightarrow> nat \<Rightarrow> nat option \<Rightarrow> SolverParameter \<Rightarrow> 'a::zero world \<Rightarrow> error + (nat \<times> 'a world)" where
  "new_P2PSync h root_solver par prm w =
     and_then (P2PSync_ctor h (next_sync w) root_solver par prm (w\<lparr>next_sync := Suc (next_sync w)\<rparr>))
       (\<lambda>w1. Inr (next_sync w, w1))"

text \<open>
  The destructor of \<open>P2PSync\<close> for the object at \<open>this\<close>; the destructor of the base
  \<open>GPUParams\<close> runs after its body.
\<close>

definition dtor_peer :: "hip \<Rightarrow> int \<Rightarrow> nat \<Rightarrow> 'a world \<Rightarrow> error + 'a world" where
  "dtor_peer h self this w =
     (case parent_' (p2psyncs w this) of
        None \<Rightarrow> Inr w
      | Some p \<Rightarrow>
          (case parent_grads_' (p2psyncs w this) of
             None \<Rightarrow> Inl HipFailed
           | Some pg \<Rightarrow>
               and_then (hipFree pg w) (\<lambda>w1.
               let peer = device_id (param (solvers w1 (solver_' (p2psyncs w1 p))))
               in case hipDeviceCanAccessPeer h self peer of
                    None \<Rightarrow> Inl HipFailed
                  | Some access \<Rightarrow>
                      if access then hipDeviceDisablePeerAccess h peer w1 else Inr w1)))"

definition P2PSync_dtor :: "hip \<Rightarrow> nat \<Rightarrow> 'a world \<Rightarrow> error + 'a world" where
  "P2PSync_dtor h this w =
     (let initial_device = current_device w;
          self = device_id (param (solvers w (solver_' (p2psyncs w this))))
      in and_then (hipSetDevice h self w) (\<lambda>w1.
         and_then (dtor_peer h self this w1) (\<lambda>w2.
         and_then (hipSetDevice h initial_device w2) (\<lambda>w3.
         GPUParams_dtor (p2psyncs w3 this) w3))))"

subsection \<open>\<open>on_gradients_ready\<close>\<close>

text \<open>
  Modelled from the spec: \<open>BlockingQueue\<close> is not in this file; it is a FIFO with a
  blocking \<open>pop\<close> and a non-blocking \<open>push\<close>.
  One iteration of the loop over the children: \<open>queue_'.pop()\<close>, which blocks on an
  empty mailbox (the result \<open>None\<close>), then
  \<open>caffe_gpu_add(size_', child->parent_grads_', diff_', diff_')\<close>.
\<close>

definition sum_child :: "'a arithmetic \<Rightarrow> nat \<Rightarrow> 'a world \<Rightarrow> (error + 'a world) option" where
  "sum_child ar this w =
     (case queue_' (p2psyncs w this) of
        [] \<Rightarrow> None
      | child # rest \<Rightarrow>
          Some (let w1 = w\<lparr>p2psyncs := (p2psyncs w)(this := (p2psyncs w this)\<lparr>queue_' := rest\<rparr>)\<rparr>
                in case parent_grads_' (p2psyncs w1 child) of
                     None \<Rightarrow> Inl BadAccess
                   | Some src \<Rightarrow>
                       caffe_gpu_add ar (size_' (p2psyncs w1 this)) src
                         (diff_' (p2psyncs w1 this)) (diff_' (p2psyncs w1 this)) w1))"

text \<open>
  What follows the loop. With a parent: \<open>diff_'\<close> is copied to \<open>parent_grads_'\<close> and
  \<open>this\<close> is pushed to the parent's mailbox. At the root: \<open>diff_'\<close> is scaled by
  \<open>Dtype(1.0 / Caffe::solver_count())\<close>, which is \<open>dtype_inv\<close> of the solver count.
\<close>

definition send_gradients :: "'a arithmetic \<Rightarrow> nat \<Rightarrow> 'a world \<Rightarrow> error + 'a world" where
  "send_gradients ar this w =
     (case parent_' (p2psyncs w this) of
        Some p \<Rightarrow>
          (case parent_grads_' (p2psyncs w this) of
             None \<Rightarrow> Inl BadAccess
           | Some dst \<Rightarrow>
               and_then (hipMemcpy_sync dst (diff_' (p2psyncs w this)) (size_' (p2psyncs w this)) w)
                 (\<lambda>w1. Inr (w1\<lparr>p2psyncs := (p2psyncs w1)
                         (p := (p2psyncs w1 p)\<lparr>queue_' := queue_' (p2psyncs w1 p) @ [this]\<rparr>)\<rparr>)))
      | None \<Rightarrow>
          caffe_gpu_scal ar (size_' (p2psyncs w this)) (dtype_inv ar (solver_count w))
            (diff_' (p2psyncs w this)) w)"

text \<open>
  The loop \<open>for (int i = 0; i < children_'.size(); ++i)\<close> from a given \<open>i\<close> on, and the
  whole hook as one thread runs it: \<open>None\<close> when a \<open>pop\<close> finds the mailbox empty and
  nobody else runs.
\<close>

function sum_children ::
  "'a arithmetic \<Rightarrow> nat \<Rightarrow> nat \<Rightarrow> 'a world \<Rightarrow> (error + 'a world) option" where
  "sum_children ar i this w =
     (if i < length (children_' (p2psyncs w this))
      then (case sum_child ar this w of
              None \<Rightarrow> None
            | Some (Inl e) \<Rightarrow> Some (Inl e)
            | Some (Inr w1) \<Rightarrow> sum_children ar (Suc i) this w1)
      else Some (Inr w))"
  by pat_completeness auto
termination
proof (relation "measure (\<lambda>(ar, i, this, w). length (children_' (p2psyncs w this)) - i)")
  fix ar :: "'a arithmetic" and i this and w w1 :: "'a world" and r
  assume "i < length (children_' (p2psyncs w this))"
    and "sum_child ar this w = Some r" and "r = Inr w1"
  then have "children_' (p2psyncs w1 this) = children_' (p2psyncs w this)"
    by (auto simp: sum_child_def caffe_gpu_add_def and_then_def Let_def
        split: list.splits option.splits sum.splits)
  with \<open>i < length (children_' (p2psyncs w this))\<close>
  show "((ar, Suc i, this, w1), (ar, i, this, w))
          \<in> measure (\<lambda>(ar, i, this, w). length (children_' (p2psyncs w this)) - i)"
    by simp
qed simp

definition on_gradients_ready :: "'a arithmetic \<Rightarrow> nat \<Rightarrow> 'a world \<Rightarrow> (error + 'a world) option" where
  "on_gradients_ready ar this w =
     (case sum_children ar 0 this w of
        None \<Rightarrow> None
      | Some (Inl e) \<Rightarrow> Some (Inl e)
      | Some (Inr w1) \<Rightarrow> Some (send_gradients ar this w1))"

text \<open>
  The replicas run the hook on threads of their own. A thread is at iteration \<open>i\<close> of
  the loop (\<open>Summing i\<close>) or has returned from the hook. \<open>thread_step\<close> is the next
  action of the thread of \<open>this\<close>: an iteration of the loop, or what follows the loop;
  \<open>None\<close> when the thread is blocked in \<open>pop\<close> or has returned.
\<close>

datatype progress = Summing nat | Returned

definition thread_step ::
  "'a arithmetic \<Rightarrow> nat \<Rightarrow> progress \<Rightarrow> 'a world \<Rightarrow> (error + (progress \<times> 'a world)) option" where
  "thread_step ar this pr w =
     (case pr of
        Returned \<Rightarrow> None
      | Summing i \<Rightarrow>
          if i < length (children_' (p2psyncs w this))
          then (case sum_child ar this w of
                  None \<Rightarrow> None
                | Some r \<Rightarrow> Some (and_then r (\<lambda>w1. Inr (Summing (Suc i), w1))))
          else Some (and_then (send_gradients ar this w) (\<lambda>w1. Inr (Returned, w1))))"

text \<open>
  A schedule names the thread that is given the processor next; a thread that cannot
  move leaves the state as it is. \<open>run_threads\<close> runs a schedule from the progress of
  every thread and the shared state.
\<close>

fun run_threads ::
  "'a arithmetic \<Rightarrow> nat list \<Rightarrow> (nat \<Rightarrow> progress) \<times> 'a world
     \<Rightarrow> error + ((nat \<Rightarrow> progress) \<times> 'a world)" where
  "run_threads ar [] s = Inr s"
| "run_threads ar (t # ts) (pc, w) =
     (case thread_step ar t (pc t) w of
        None \<Rightarrow> run_threads ar ts (pc, w)
      | Some (Inl e) \<Rightarrow> Inl e
      | Some (Inr (pr, w1)) \<Rightarrow> run_threads ar ts (pc(t := pr), w1))"

section \<open>The coordinator\<close>

text \<open>
  The search of \<open>Prepare\<close> for the parent of a pair: the loop over \<open>j\<close> keeps the last
  of \<open>this\<close> (for \<open>j = 0\<close>) and the filled slots whose solver's \<open>device_id\<close> is the wanted
  one. \<open>find_parent_step\<close> is the body of the loop.
\<close>

definition find_parent_step ::
  "'a world \<Rightarrow> nat \<Rightarrow> nat option list \<Rightarrow> int \<Rightarrow> nat \<Rightarrow> nat option \<Rightarrow> nat option" where
  "find_parent_step w this syncs wanted j found =
     (case (if j = 0 then Some this else syncs ! j) of
        None \<Rightarrow> found
      | Some sync \<Rightarrow>
          if device_id (param (solvers w (solver_' (p2psyncs w sync)))) = wanted
          then Some sync else found)"

definition find_parent :: "'a world \<Rightarrow> nat \<Rightarrow> nat option list \<Rightarrow> int \<Rightarrow> nat option" where
  "find_parent w this syncs wanted =
     fold (find_parent_step w this syncs wanted) [0 ..< length syncs] None"

text \<open>
  The state of the loops of \<open>Prepare\<close>: the local \<open>param\<close>, the vector \<open>syncs\<close> and the
  world. \<open>prepare_slot\<close> is the body of the loop over \<open>i\<close>; \<open>syncs->at(i)\<close> throws outside
  the vector.
\<close>

definition prepare_slot ::
  "hip \<Rightarrow> nat \<Rightarrow> DevicePair list \<Rightarrow> nat \<Rightarrow> SolverParameter \<times> nat option list \<times> 'a::zero world
     \<Rightarrow> error + (SolverParameter \<times> nat option list \<times> 'a world)" where
  "prepare_slot h this pairs i s =
     (case s of (prm, syncs, w) \<Rightarrow>
        if \<not> i < length syncs then Inl OutOfRangeThrown
        else if syncs ! i \<noteq> None then Inr (prm, syncs, w)
        else (case find_parent w this syncs (parent (pairs ! i)) of
                None \<Rightarrow> Inr (prm, syncs, w)
              | Some par \<Rightarrow>
                  (let prm1 = prm\<lparr>device_id := device (pairs ! i)\<rparr>
                   in and_then (new_P2PSync h (solver_' (p2psyncs w this)) (Some par) prm1 w)
                        (\<lambda>(a, w1).
                           Inr (prm1, syncs[i := Some a],
                                w1\<lparr>p2psyncs := (p2psyncs w1)
                                     (par := (p2psyncs w1 par)
                                        \<lparr>children_' := children_' (p2psyncs w1 par) @ [a]\<rparr>)\<rparr>)))))"

fun prepare_sweep ::
  "hip \<Rightarrow> nat \<Rightarrow> DevicePair list \<Rightarrow> nat list \<Rightarrow> SolverParameter \<times> nat option list \<times> 'a::zero world
     \<Rightarrow> error + (SolverParameter \<times> nat option list \<times> 'a world)" where
  "prepare_sweep h this pairs [] s = Inr s"
| "prepare_sweep h this pairs (i # is) s =
     and_then (prepare_slot h this pairs i s) (prepare_sweep h this pairs is)"

fun prepare_attempts ::
  "hip \<Rightarrow> nat \<Rightarrow> DevicePair list \<Rightarrow> nat \<Rightarrow> SolverParameter \<times> nat option list \<times> 'a::zero world
     \<Rightarrow> error + (SolverParameter \<times> nat option list \<times> 'a world)" where
  "prepare_attempts h this pairs 0 s = Inr s"
| "prepare_attempts h this pairs (Suc n) s =
     and_then (prepare_sweep h this pairs [1 ..< length pairs] s)
       (prepare_attempts h this pairs n)"

text \<open>
  \<open>Prepare(gpus, syncs)\<close> called on the object at \<open>this\<close>: the planner on a new empty
  vector \<open>pairs\<close>, then \<open>pairs.size()\<close> sweeps over \<open>pairs[1..)\<close>.
\<close>

definition Prepare ::
  "hip \<Rightarrow> nat \<Rightarrow> int list \<Rightarrow> nat option list \<Rightarrow> 'a::zero world \<Rightarrow> error + (nat option list \<times> 'a world)" where
  "Prepare h this gpus syncs w =
     and_then (compute h gpus []) (\<lambda>pairs.
     and_then (prepare_attempts h this pairs (length pairs)
                 (param (solvers w (solver_' (p2psyncs w this))), syncs, w))
       (\<lambda>(prm, syncs1, w1). Inr (syncs1, w1)))"

text \<open>
  Modelled from the spec: \<open>InternalThread\<close> is not in this file; \<open>start()\<close> and \<open>stop()\<close>
  bracket the life of a worker thread, and the model records which replicas have one.
  \<open>StartInternalThread\<close> and \<open>StopInternalThread\<close> on \<open>syncs[i]\<close> for \<open>i\<close> from 1 on; an
  empty slot is a null pointer.
\<close>

fun start_threads :: "nat option list \<Rightarrow> 'a world \<Rightarrow> error + 'a world" where
  "start_threads [] w = Inr w"
| "start_threads (None # ss) w = Inl NullPointer"
| "start_threads (Some a # ss) w = start_threads ss (w\<lparr>threads := threads w @ [a]\<rparr>)"

fun stop_threads :: "nat option list \<Rightarrow> 'a world \<Rightarrow> error + 'a world" where
  "stop_threads [] w = Inr w"
| "stop_threads (None # ss) w = Inl NullPointer"
| "stop_threads (Some a # ss) w = stop_threads ss (w\<lparr>threads := removeAll a (threads w)\<rparr>)"

text \<open>
  Modelled from the spec: \<open>Solver::Solve\<close> is the external training driver; the model
  only records on which solver it was called.
\<close>

definition Solve :: "nat \<Rightarrow> 'a world \<Rightarrow> 'a world" where
  "Solve solver w = w\<lparr>solved := solved w @ [solver]\<rparr>"

text \<open>
  When \<open>Run\<close> returns, its local vector \<open>syncs\<close> is destroyed. Each \<open>shared_ptr\<close> in it is
  the only owner of its replica, so the destructor of the replica runs; the elements
  are taken front to back (the order is the library's). The destructor of a replica
  with a parent reads \<open>parent_'->solver_'\<close> after \<open>hipFree(parent_grads_')\<close>: when the
  parent was destroyed before, it reads a dead object, which is \<open>dtor_dead_parent\<close>.
  The worker solver that \<open>solver_'\<close> owns is outside this file; its destruction is not
  modelled.
\<close>

definition dtor_dead_parent :: "hip \<Rightarrow> nat \<Rightarrow> 'a world \<Rightarrow> error + 'a world" where
  "dtor_dead_parent h this w =
     (let self = device_id (param (solvers w (solver_' (p2psyncs w this))))
      in and_then (hipSetDevice h self w) (\<lambda>w1.
         case parent_grads_' (p2psyncs w1 this) of
           None \<Rightarrow> Inl HipFailed
         | Some pg \<Rightarrow> and_then (hipFree pg w1) (\<lambda>w2. Inl BadAccess)))"

fun destroy_syncs :: "hip \<Rightarrow> nat option list \<Rightarrow> nat list \<Rightarrow> 'a world \<Rightarrow> error + 'a world" where
  "destroy_syncs h [] dead w = Inr w"
| "destroy_syncs h (None # ss) dead w = destroy_syncs h ss dead w"
| "destroy_syncs h (Some a # ss) dead w =
     (if parent_' (p2psyncs w a) \<in> Some ` set dead then dtor_dead_parent h a w
      else and_then (P2PSync_dtor h a w) (destroy_syncs h ss (a # dead)))"

text \<open>
  \<open>Run(gpus)\<close> called on the object at \<open>this\<close>: \<open>Prepare\<close> on a vector of \<open>gpus.size()\<close>
  empty slots, the worker threads started, the root solver run on the calling thread,
  the worker threads stopped, and the vector destroyed.
\<close>

definition Run :: "hip \<Rightarrow> nat \<Rightarrow> int list \<Rightarrow> 'a::zero world \<Rightarrow> error + 'a world" where
  "Run h this gpus w =
     and_then (Prepare h this gpus (replicate (length gpus) None) w) (\<lambda>(syncs, w1).
     and_then (start_threads (drop 1 syncs) w1) (\<lambda>w2.
     and_then (stop_threads (drop 1 syncs) (Solve (solver_' (p2psyncs w2 this)) w2)) (\<lambda>w3.
     destroy_syncs h syncs [] w3)))"
section \<open>Notions used in the statements\<close>

text \<open>The sum of the element counts of a tensor list.\<close>

definition count_sum :: "'a world \<Rightarrow> nat list \<Rightarrow> nat" where
  "count_sum w bs = sum_list (map (\<lambda>b. blob_count (blobs w b)) bs)"

text \<open>The storage pointer of a tensor that a rebind operation sets.\<close>

definition rebound_ptr :: "Op \<Rightarrow> 'a Blob \<Rightarrow> ptr option" where
  "rebound_ptr op b =
     (case op of
        copy \<Rightarrow> None
      | replace_cpu \<Rightarrow> data_cpu_ptr b
      | replace_gpu \<Rightarrow> data_gpu_ptr b
      | replace_cpu_diff \<Rightarrow> diff_cpu_ptr b
      | replace_gpu_diff \<Rightarrow> diff_gpu_ptr b)"

text \<open>The host values that \<open>copy\<close> reads: the first \<open>count()\<close> of each tensor, in list order.\<close>

definition host_values :: "'a world \<Rightarrow> nat list \<Rightarrow> 'a list" where
  "host_values w bs = concat (map (\<lambda>b. take (blob_count (blobs w b)) (cpu_data (blobs w b))) bs)"

text \<open>\<open>sync->solver()->param().device_id()\<close> of the replica at an address.\<close>

definition dev_of :: "'a world \<Rightarrow> nat \<Rightarrow> int" where
  "dev_of w a = device_id (param (solvers w (solver_' (p2psyncs w a))))"

text \<open>
  A pair list describes an in-tree rooted at pair 0 when every pair gets to pair 0 by
  going from a pair to a pair whose device is its parent; \<open>reach ps k i\<close> says that pair
  \<open>i\<close> does so in at most \<open>k\<close> steps.
\<close>

fun reach :: "DevicePair list \<Rightarrow> nat \<Rightarrow> nat \<Rightarrow> bool" where
  "reach ps 0 i \<longleftrightarrow> i = 0"
| "reach ps (Suc k) i \<longleftrightarrow>
     i = 0 \<or> list_ex (\<lambda>j. device (ps ! j) = parent (ps ! i) \<and> reach ps k j) [0 ..< length ps]"

definition reaches_root :: "DevicePair list \<Rightarrow> bool" where
  "reaches_root ps \<longleftrightarrow> list_all (reach ps (length ps)) [0 ..< length ps]"

text \<open>The root replica, its solver and its children are objects that exist.\<close>

definition root_ready :: "'a world \<Rightarrow> nat \<Rightarrow> bool" where
  "root_ready w this \<longleftrightarrow>
     this < next_sync w \<and> solver_' (p2psyncs w this) < next_solver w
     \<and> list_all (\<lambda>c. c < next_sync w) (children_' (p2psyncs w this))"




text \<open>
  The arithmetic of the IEEE 754 binary formats with \<open>p\<close> significant bits (24 for
  \<open>float\<close>, 53 for \<open>double\<close>) on finite values, which are real numbers: the exact
  result, rounded to the nearest number with \<open>p\<close> significant bits, a tie to the one
  whose last bit is even. The exponent range is not modelled: this is the arithmetic
  of \<open>float\<close> and \<open>double\<close> wherever no result overflows or is subnormal.
  \<open>Dtype(1.0 / n)\<close> is the quotient rounded to \<open>double\<close>, then to \<open>Dtype\<close>.
\<close>

definition round_half_even :: "real \<Rightarrow> int" where
  "round_half_even x =
     (if frac x < 1 / 2 \<or> (frac x = 1 / 2 \<and> even \<lfloor>x\<rfloor>) then \<lfloor>x\<rfloor> else \<lfloor>x\<rfloor> + 1)"

definition round_to :: "nat \<Rightarrow> real \<Rightarrow> real" where
  "round_to p x =
     (if x = 0 then 0
      else (let u = 2 powr of_int (\<lfloor>log 2 \<bar>x\<bar>\<rfloor> - int p + 1)
            in of_int (round_half_even (x / u)) * u))"


text \<open>
  What a replica holds after it has added to \<open>x\<close>, one after another, the sums \<open>T c\<close> of
  the children \<open>cs\<close>: \<open>caffe_gpu_add(size_', child->parent_grads_', diff_', diff_')\<close> for
  each child, in this order.
\<close>

definition arrival_sum :: "'a arithmetic \<Rightarrow> (nat \<Rightarrow> nat \<Rightarrow> 'a) \<Rightarrow> nat list \<Rightarrow> 'a \<Rightarrow> nat \<Rightarrow> 'a" where
  "arrival_sum ar T cs x k = fold (\<lambda>c a. dtype_add ar (T c k) a) cs x"



section \<open>Notions used in the proofs\<close>

text \<open>What a pairing phase keeps: the devices, and where parents come from.\<close>

definition pairing_keeps :: "int list \<times> DevicePair list \<Rightarrow> int list \<times> DevicePair list \<Rightarrow> bool" where
  "pairing_keeps s s' \<longleftrightarrow>
     mset (fst s') + mset (map device (snd s')) = mset (fst s) + mset (map device (snd s))
     \<and> set (fst s') \<subseteq> set (fst s)
     \<and> set (map parent (snd s')) \<subseteq> set (map parent (snd s)) \<union> set (fst s)"

text \<open>What the search for a parent has found after looking at the slots below \<open>n\<close>.\<close>

definition parent_found :: "'a world \<Rightarrow> nat \<Rightarrow> nat option list \<Rightarrow> int \<Rightarrow> nat \<Rightarrow> nat option \<Rightarrow> bool" where
  "parent_found w this syncs wanted n r \<longleftrightarrow>
     (case r of
        None \<Rightarrow> (0 < n \<longrightarrow> dev_of w this \<noteq> wanted)
                \<and> (\<forall>j<n. \<forall>a. 0 < j \<longrightarrow> syncs ! j = Some a \<longrightarrow> dev_of w a \<noteq> wanted)
      | Some p \<Rightarrow> dev_of w p = wanted \<and> (p = this \<or> (\<exists>j<n. 0 < j \<and> syncs ! j = Some p)))"

text \<open>
  What the loops of \<open>Prepare\<close> keep true. A filled slot \<open>i\<close> holds a replica that is not
  the root, is in no other slot, has the device of pair \<open>i\<close>, and whose parent is the
  root or in a slot, has the parent device of pair \<open>i\<close> and lists it once as a child.
\<close>

definition slot_ok :: "nat \<Rightarrow> DevicePair list \<Rightarrow> nat option list \<Rightarrow> 'a world \<Rightarrow> nat \<Rightarrow> nat \<Rightarrow> bool" where
  "slot_ok this pairs syncs w i a \<longleftrightarrow>
     a \<noteq> this \<and> a < next_sync w \<and> solver_' (p2psyncs w a) < next_solver w
     \<and> device_' (p2psyncs w a) = device (pairs ! i) \<and> dev_of w a = device (pairs ! i)
     \<and> (\<forall>c\<in>set (children_' (p2psyncs w a)). c < next_sync w)
     \<and> (\<forall>j<length syncs. j \<noteq> i \<longrightarrow> syncs ! j \<noteq> Some a)
     \<and> (\<exists>p. parent_' (p2psyncs w a) = Some p \<and> (p = this \<or> Some p \<in> set syncs)
              \<and> dev_of w p = parent (pairs ! i)
              \<and> count_list (children_' (p2psyncs w p)) a = 1)"

definition prepared :: "nat \<Rightarrow> DevicePair list \<Rightarrow> nat option list \<Rightarrow> 'a world \<Rightarrow> bool" where
  "prepared this pairs syncs w \<longleftrightarrow>
     length syncs = length pairs \<and> root_ready w this \<and> dev_of w this = device (pairs ! 0)
     \<and> (\<forall>i<length syncs. \<forall>a. syncs ! i = Some a \<longrightarrow> 0 < i \<and> slot_ok this pairs syncs w i a)"

text \<open>Slot \<open>i\<close> is taken: it is the root's slot 0 or holds a replica.\<close>

definition filled :: "nat option list \<Rightarrow> nat \<Rightarrow> bool" where
  "filled syncs i \<longleftrightarrow> i = 0 \<or> syncs ! i \<noteq> None"








section \<open>Example configurations\<close>

text \<open>A runtime on which every call succeeds, with the given peer accessibility.\<close>

definition hip_ok :: "(int \<Rightarrow> int \<Rightarrow> bool) \<Rightarrow> hip" where
  "hip_ok access =
     \<lparr>hipSetDevice_ok = (\<lambda>_. True), hipMalloc_ok = (\<lambda>_ _. True),
      hipGetDeviceProperties_ok = (\<lambda>_. True),
      hipDeviceCanAccessPeer = (\<lambda>a b. Some (access a b)),
      hipDeviceEnablePeerAccess_ok = (\<lambda>_ _. True),
      hipDeviceDisablePeerAccess_ok = (\<lambda>_ _. True)\<rparr>"

text \<open>A runtime of four devices on which 1 reaches 2, 2 reaches 3 and 0 reaches 3.\<close>

definition example_hip :: hip where
  "example_hip = hip_ok (\<lambda>a b. (a, b) \<in> {(1, 2), (2, 3), (0, 3)})"

text \<open>A tensor with the given host values and no storage rebound.\<close>

definition new_blob :: "'a list \<Rightarrow> 'a Blob" where
  "new_blob vs = \<lparr>blob_count = length vs, cpu_data = vs, data_cpu_ptr = None,
     data_gpu_ptr = None, diff_cpu_ptr = None, diff_gpu_ptr = None\<rparr>"

text \<open>
  A world before any replica exists: the root solver at address 0, on device 0, with
  two learnable tensors at 10 and 11 (2 and 3 elements); the tensor at 12 is empty.
\<close>

definition example_solver :: Solver where
  "example_solver = \<lparr>param = \<lparr>device_id = 0, max_iter = 10, random_seed = - 1\<rparr>,
     learnable_params = [10, 11], iter = 0, callbacks = []\<rparr>"

definition null_sync :: P2PSync where
  "null_sync = \<lparr>size_' = 0, data_' = Ptr 0 0, diff_' = Ptr 0 0, device_' = 0, parent_' = None,
     children_' = [], queue_' = [], initial_iter_' = 0, solver_' = 0, parent_grads_' = None\<rparr>"

definition example_world :: "real world" where
  "example_world =
     \<lparr>blobs = (\<lambda>_. new_blob [])(10 := new_blob [1, 2], 11 := new_blob [3, 4, 5]),
      next_blob = 13, solvers = (\<lambda>_. example_solver), next_solver = 1,
      p2psyncs = (\<lambda>_. null_sync), next_sync = 0, mem = Map.empty, next_block = 0,
      current_device = 0, peer_enabled = {}, root_solver_flag = True, solver_count = 1,
      threads = [], solved = []\<rparr>"

text \<open>
  \<open>example_world\<close> after the root replica was constructed at address 0:
  \<open>new P2PSync(0, NULL, param)\<close> on device 0.
\<close>

definition root_world :: "real world" where
  "root_world = example_world
     \<lparr>blobs := (blobs example_world)
        (10 := (new_blob [1, 2])\<lparr>data_gpu_ptr := Some (Ptr 0 0), diff_gpu_ptr := Some (Ptr 1 0)\<rparr>,
         11 := (new_blob [3, 4, 5])\<lparr>data_gpu_ptr := Some (Ptr 0 2), diff_gpu_ptr := Some (Ptr 1 2)\<rparr>),
      solvers := (solvers example_world)(0 := example_solver\<lparr>callbacks := [0]\<rparr>),
      p2psyncs := (p2psyncs example_world)
        (0 := \<lparr>size_' = 5, data_' = Ptr 0 0, diff_' = Ptr 1 0, device_' = 0, parent_' = None,
               children_' = [], queue_' = [], initial_iter_' = 0, solver_' = 0,
               parent_grads_' = None\<rparr>),
      next_sync := 1,
      mem := [0 \<mapsto> (0, [Some 1, Some 2, Some 3, Some 4, Some 5]),
              1 \<mapsto> (0, [Some 0, Some 0, Some 0, Some 0, Some 0])],
      next_block := 2\<rparr>"






section \<open>Sequencing\<close>

lemma and_then_Inr [simp]: "and_then (Inr x) f = f x"
  by (simp add: and_then_def)

lemma and_then_Inl [simp]: "and_then (Inl e) f = Inl e"
  by (simp add: and_then_def)

lemma and_then_eq_Inr: "and_then r f = Inr y \<longleftrightarrow> (\<exists>x. r = Inr x \<and> f x = Inr y)"
  by (cases r) simp_all

text \<open>
  The loops defined by general recursion are unfolded one step at a time, by instances
  of their equations.
\<close>

declare remaining_depth.simps [simp del]
declare p2p_j.simps [simp del]
declare p2p_i.simps [simp del]
declare fallback_i.simps [simp del]
declare sum_children.simps [simp del]

section \<open>The flat buffer manager: proofs\<close>

lemma apply_op_count: "apply_op op b p w = Inr w' \<Longrightarrow> blob_count (blobs w' c) = blob_count (blobs w c)"
  by (cases op) (auto simp: apply_op_def caffe_copy_def and_then_eq_Inr split: if_splits)

lemma count_sum_Nil [simp]: "count_sum w [] = 0"
  by (simp add: count_sum_def)

lemma count_sum_Cons [simp]: "count_sum w (b # bs) = blob_count (blobs w b) + count_sum w bs"
  by (simp add: count_sum_def)

lemma count_sum_cong: "(\<And>c. blob_count (blobs w' c) = blob_count (blobs w c)) \<Longrightarrow> count_sum w' bs = count_sum w bs"
  by (simp add: count_sum_def)

lemma apply_loop_ptr:
  "apply_loop op bs p w = Inr (q, w') \<Longrightarrow>
     q = ptr_add p (count_sum w bs) \<and> (\<forall>c. blob_count (blobs w' c) = blob_count (blobs w c))"
proof (induction bs arbitrary: p w)
  case Nil
  then show ?case by (simp add: ptr_add_def)
next
  case (Cons b bs)
  from Cons.prems obtain w1 where
    s1: "apply_op op b p w = Inr w1" and
    s2: "apply_loop op bs (ptr_add p (blob_count (blobs w b))) w1 = Inr (q, w')"
    by (auto split: sum.splits)
  have c1: "\<And>c. blob_count (blobs w1 c) = blob_count (blobs w c)"
    using apply_op_count [OF s1] by simp
  from Cons.IH [OF s2] have
    q: "q = ptr_add (ptr_add p (blob_count (blobs w b))) (count_sum w1 bs)" and
    c2: "\<forall>c. blob_count (blobs w' c) = blob_count (blobs w1 c)" by auto
  have "count_sum w1 bs = count_sum w bs" using c1 by (rule count_sum_cong)
  with q c1 c2 show ?case by (simp add: ptr_add_def add.assoc)
qed

lemma apply_op_rebind_total: "op \<noteq> copy \<Longrightarrow> \<exists>w'. apply_op op b p w = Inr w'"
  by (cases op) (auto simp: apply_op_def)

lemma apply_loop_rebind_total: "op \<noteq> copy \<Longrightarrow> \<exists>r. apply_loop op bs p w = Inr r"
proof (induction bs arbitrary: p w)
  case Nil
  then show ?case by simp
next
  case (Cons b bs)
  from apply_op_rebind_total [OF Cons.prems] obtain w1 where "apply_op op b p w = Inr w1" by blast
  with Cons.IH [OF Cons.prems] show ?case by simp
qed

lemma check_value: "(if ptr_add buffer n = buffer then 1 else ptr_diff (ptr_add buffer n) buffer) = max 1 n"
  by (cases buffer) (auto simp: ptr_add_def ptr_diff_def)

text \<open>
  C8, as the code has it: \<open>apply_buffers\<close> completes exactly when \<open>total_size\<close> is the
  sum of the element counts, or is 1 when that sum is 0 (an empty list, or tensors that
  are all empty), and, for \<open>copy\<close>, every copy stays inside the host array and the
  allocation. A rebind operation itself never fails.
\<close>

theorem apply_buffers_completes_iff:
  "(\<exists>w'. apply_buffers bs buffer t op w = Inr w') \<longleftrightarrow>
     (t = max 1 (count_sum w bs) \<and> (op = copy \<longrightarrow> (\<exists>r. apply_loop copy bs buffer w = Inr r)))"
proof (cases "apply_loop op bs buffer w")
  case (Inl e)
  then have "op = copy" using apply_loop_rebind_total [of op bs buffer w] by auto
  with Inl show ?thesis by (simp add: apply_buffers_def)
next
  case (Inr r)
  obtain q w1 where r: "r = (q, w1)" by (cases r)
  from apply_loop_ptr [of op bs buffer w q w1] Inr r
  have q: "q = ptr_add buffer (count_sum w bs)" by simp
  show ?thesis using Inr r q check_value [of buffer "count_sum w bs"]
    by (auto simp: apply_buffers_def)
qed

lemma fold_mod_sum:
  "fold (\<lambda>b s. (s + blob_count (blobs w b)) mod 2 ^ 64) bs a = (a + count_sum w bs) mod 2 ^ 64"
  if "a < 2 ^ 64"
  using that
proof (induction bs arbitrary: a)
  case Nil
  then show ?case by simp
next
  case (Cons b bs)
  have "(a + blob_count (blobs w b)) mod 2 ^ 64 < (2 ^ 64 :: nat)" by simp
  from Cons.IH [OF this] show ?case by (simp add: mod_add_left_eq add.assoc)
qed

lemma count_sum_bound:
  "\<forall>b\<in>set bs. blob_count (blobs w b) \<le> k \<Longrightarrow> count_sum w bs \<le> length bs * k"
  by (induction bs) auto

text \<open>
  C7: the flat buffer length is \<open>max 1\<close> of the sum of the element counts. \<open>count()\<close>
  and the loop index are \<open>int\<close>, so there are fewer than \<open>2 ^ 31\<close> tensors of fewer
  than \<open>2 ^ 31\<close> elements each, and the \<open>size_t\<close> accumulator does not wrap.
\<close>

theorem total_size_max:
  assumes "length params < 2 ^ 31" and "\<forall>b\<in>set params. blob_count (blobs w b) < 2 ^ 31"
  shows "total_size w params = max 1 (count_sum w params)"
proof -
  have "count_sum w params \<le> length params * (2 ^ 31 - 1)"
    using count_sum_bound [of params w "2 ^ 31 - 1"] assms(2) by fastforce
  also have "\<dots> \<le> 2 ^ 31 * (2 ^ 31 - 1)" using assms(1) by simp
  also have "\<dots> < (2 ^ 64 :: nat)" by simp
  finally have "count_sum w params < 2 ^ 64" .
  then show ?thesis using fold_mod_sum [of 0 w params]
    by (simp add: total_size_def Let_def)
qed

lemma apply_op_rebind:
  "op \<noteq> copy \<Longrightarrow> apply_op op b p w = Inr w' \<Longrightarrow>
     rebound_ptr op (blobs w' b) = Some p \<and> (\<forall>c. c \<noteq> b \<longrightarrow> blobs w' c = blobs w c)"
  by (cases op) (auto simp: apply_op_def rebound_ptr_def)

lemma apply_loop_rebind:
  "op \<noteq> copy \<Longrightarrow> apply_loop op bs p w = Inr (q, w') \<Longrightarrow>
     (\<forall>i<length bs. bs ! i \<notin> set (drop (Suc i) bs) \<longrightarrow>
        rebound_ptr op (blobs w' (bs ! i)) = Some (ptr_add p (count_sum w (take i bs))))
     \<and> (\<forall>c. c \<notin> set bs \<longrightarrow> blobs w' c = blobs w c)"
proof (induction bs arbitrary: p w)
  case Nil
  then show ?case by simp
next
  case (Cons b bs)
  from Cons.prems obtain w1 where
    s1: "apply_op op b p w = Inr w1" and
    s2: "apply_loop op bs (ptr_add p (blob_count (blobs w b))) w1 = Inr (q, w')"
    by (auto split: sum.splits)
  have c1: "\<And>c. blob_count (blobs w1 c) = blob_count (blobs w c)"
    using apply_op_count [OF s1] by simp
  have cs: "\<And>xs. count_sum w1 xs = count_sum w xs" using c1 by (rule count_sum_cong)
  from apply_op_rebind [OF Cons.prems(1) s1] have
    hb: "rebound_ptr op (blobs w1 b) = Some p" and
    fr1: "\<forall>c. c \<noteq> b \<longrightarrow> blobs w1 c = blobs w c" by auto
  from Cons.IH [OF Cons.prems(1) s2] have
    ih: "\<forall>i<length bs. bs ! i \<notin> set (drop (Suc i) bs) \<longrightarrow>
           rebound_ptr op (blobs w' (bs ! i)) =
             Some (ptr_add (ptr_add p (blob_count (blobs w b))) (count_sum w1 (take i bs)))" and
    fr2: "\<forall>c. c \<notin> set bs \<longrightarrow> blobs w' c = blobs w1 c" by auto
  have "rebound_ptr op (blobs w' ((b # bs) ! i)) = Some (ptr_add p (count_sum w (take i (b # bs))))"
    if "i < length (b # bs)" and "(b # bs) ! i \<notin> set (drop (Suc i) (b # bs))" for i
  proof (cases i)
    case 0
    with that(2) have "b \<notin> set bs" by simp
    with 0 show ?thesis using hb fr2 by (simp add: ptr_add_def)
  next
    case (Suc j)
    with that have "j < length bs" and "bs ! j \<notin> set (drop (Suc j) bs)" by simp_all
    with ih Suc show ?thesis by (simp add: cs ptr_add_def add.assoc)
  qed
  moreover have "\<forall>c. c \<notin> set (b # bs) \<longrightarrow> blobs w' c = blobs w c"
    using fr1 fr2 by auto
  ultimately show ?case by blast
qed

text \<open>
  C6, as the code has it: after \<open>apply_buffers\<close> with a rebind operation over \<open>buffer\<close>,
  the storage pointer of the \<open>i\<close>-th tensor is \<open>buffer\<close> plus the element counts of the
  tensors before it, for every \<open>i\<close> whose tensor the list does not name again after
  position \<open>i\<close>: for every \<open>i\<close> when the list names each tensor once. A tensor that the
  list names several times keeps the pointer of its last position.
\<close>

theorem rebind_pointer_layout:
  assumes "op \<noteq> copy"
    and "apply_buffers bs buffer t op w = Inr w'"
    and "i < length bs" and "bs ! i \<notin> set (drop (Suc i) bs)"
  shows "rebound_ptr op (blobs w' (bs ! i)) = Some (ptr_add buffer (count_sum w (take i bs)))"
proof -
  from assms(2) obtain q where "apply_loop op bs buffer w = Inr (q, w')"
    by (auto simp: apply_buffers_def split: sum.splits if_splits)
  from apply_loop_rebind [OF assms(1) this] assms(3,4) show ?thesis by blast
qed

lemma apply_buffers_rebind_ok:
  assumes "op \<noteq> copy" and "t = max 1 (count_sum w bs)"
  shows "\<exists>w'. apply_buffers bs buffer t op w = Inr w'"
proof -
  from apply_loop_rebind_total [OF assms(1)] obtain q w1 where
    l: "apply_loop op bs buffer w = Inr (q, w1)" by fastforce
  from apply_loop_ptr [OF l] have "q = ptr_add buffer (count_sum w bs)" by simp
  with l assms(2) check_value [of buffer "count_sum w bs"] show ?thesis
    by (simp add: apply_buffers_def)
qed

lemma ex_counts:
  "blob_count (blobs example_world 10) = 2" "blob_count (blobs example_world 11) = 3"
  "blob_count (blobs example_world 12) = 0"
  by (simp_all add: example_world_def new_blob_def)

theorem rebind_pointer_layout_witness:
  "\<exists>w'. apply_buffers [10, 11, 10] (Ptr 7 0) 7 replace_gpu_diff example_world = Inr w'
     \<and> diff_gpu_ptr (blobs w' 11) = Some (Ptr 7 2) \<and> diff_gpu_ptr (blobs w' 10) = Some (Ptr 7 5)"
proof -
  obtain w' where a: "apply_buffers [10, 11, 10] (Ptr 7 0) 7 replace_gpu_diff example_world = Inr w'"
    using apply_buffers_rebind_ok [of replace_gpu_diff 7 example_world "[10, 11, 10]" "Ptr 7 0"]
    by (auto simp: ex_counts)
  from rebind_pointer_layout [OF _ a, of 1] have "diff_gpu_ptr (blobs w' 11) = Some (Ptr 7 2)"
    by (simp add: rebound_ptr_def ptr_add_def ex_counts)
  moreover from rebind_pointer_layout [OF _ a, of 2] have "diff_gpu_ptr (blobs w' 10) = Some (Ptr 7 5)"
    by (simp add: rebound_ptr_def ptr_add_def ex_counts)
  ultimately show ?thesis using a by blast
qed

text \<open>
  C6 as stated fails on a list that names a tensor twice: after the rebind over
  \<open>[10, 10]\<close> the tensor at index 0 has the pointer of index 1, \<open>buffer + 2\<close>, and not
  \<open>buffer\<close> plus the counts of the tensors before index 0, which is \<open>buffer\<close>.
\<close>

theorem rebind_repeated_tensor_counterexample:
  "\<not> isl (apply_buffers [10, 10] (Ptr 7 0) 4 replace_gpu example_world)
   \<and> rebound_ptr replace_gpu
        (blobs (projr (apply_buffers [10, 10] (Ptr 7 0) 4 replace_gpu example_world)) ([10, 10] ! 0))
      = Some (Ptr 7 2)
   \<and> ptr_add (Ptr 7 0) (count_sum example_world (take 0 [10, 10])) = Ptr 7 0"
  by (simp add: apply_buffers_def apply_op_def ptr_add_def ptr_diff_def rebound_ptr_def ex_counts
      numeral_2_eq_2)

theorem total_size_max_witness: "total_size example_world [10, 11] = 5"
  using total_size_max [of "[10, 11]" example_world]
  by (simp add: ex_counts)

theorem apply_buffers_completes_iff_witness:
  "\<exists>w'. apply_buffers [10, 11] (Ptr 7 0) 5 replace_gpu example_world = Inr w'"
  using apply_buffers_completes_iff [of "[10, 11]" "Ptr 7 0" 5 replace_gpu example_world]
  by (simp add: ex_counts)

text \<open>
  C8 as stated fails both ways: a list of one empty tensor with \<open>total_size = 1\<close>
  completes although the sum is 0 and the list is not empty, and the empty list with
  \<open>total_size = 0\<close> aborts although the sum equals \<open>total_size\<close>.
\<close>

theorem apply_buffers_zero_counts_counterexample:
  "apply_buffers [12] (Ptr 7 0) 1 replace_gpu example_world =
     Inr (example_world\<lparr>blobs := (blobs example_world)
            (12 := (blobs example_world 12)\<lparr>data_gpu_ptr := Some (Ptr 7 0)\<rparr>)\<rparr>)
   \<and> count_sum example_world [12] \<noteq> 1 \<and> [12::nat] \<noteq> []
   \<and> apply_buffers [] (Ptr 7 0) 0 replace_gpu example_world = Inl CheckFailed
   \<and> count_sum example_world [] = 0"
  by (simp add: apply_buffers_def apply_op_def ptr_add_def ptr_diff_def ex_counts)

section \<open>The topology planner: proofs\<close>

lemma mset_erase: "j < length xs \<Longrightarrow> add_mset (xs ! j) (mset (erase j xs)) = mset xs"
proof -
  assume j: "j < length xs"
  then have "xs = take j xs @ xs ! j # drop (Suc j) xs" by (simp add: id_take_nth_drop)
  then have "mset xs = mset (take j xs @ xs ! j # drop (Suc j) xs)" by simp
  then show ?thesis by (simp add: erase_def)
qed

lemma set_erase: "set (erase j xs) \<subseteq> set xs"
  by (auto simp: erase_def dest: in_set_takeD in_set_dropD)

lemma length_erase: "j < length xs \<Longrightarrow> length (erase j xs) = length xs - 1"
  by (auto simp: erase_def)

lemma p2p_j_range: "p2p_j h r i j0 = Inr (Some j) \<Longrightarrow> j0 \<le> j \<and> j < length r"
proof (induction h r i j0 rule: p2p_j.induct)
  case (1 h remaining i j0)
  show ?case
  proof (cases "j0 < length remaining")
    case True
    show ?thesis
    proof (cases "hipDeviceCanAccessPeer h (remaining ! i) (remaining ! j0)")
      case None
      with True "1.prems" show ?thesis by (simp add: p2p_j.simps [of h remaining i j0])
    next
      case (Some access)
      show ?thesis
      proof (cases access)
        case True
        with \<open>j0 < length remaining\<close> Some "1.prems" show ?thesis
          by (simp add: p2p_j.simps [of h remaining i j0])
      next
        case False
        with \<open>j0 < length remaining\<close> Some "1.prems"
        have "p2p_j h remaining i (Suc j0) = Inr (Some j)"
          by (simp add: p2p_j.simps [of h remaining i j0])
        from "1.IH" [OF \<open>j0 < length remaining\<close> Some False this] show ?thesis by simp
      qed
    qed
  next
    case False
    with "1.prems" show ?thesis by (simp add: p2p_j.simps [of h remaining i j0])
  qed
qed

lemma pairing_keeps_refl: "pairing_keeps s s"
  by (simp add: pairing_keeps_def)

lemma pairing_keeps_trans:
  assumes "pairing_keeps s t" and "pairing_keeps t u"
  shows "pairing_keeps s u"
proof -
  from assms have m: "mset (fst u) + mset (map device (snd u)) = mset (fst s) + mset (map device (snd s))"
    unfolding pairing_keeps_def by simp
  from assms have r: "set (fst u) \<subseteq> set (fst s)"
    unfolding pairing_keeps_def by blast
  from assms have "set (map parent (snd u)) \<subseteq> set (map parent (snd s)) \<union> set (fst s)"
    unfolding pairing_keeps_def by blast
  with m r show ?thesis unfolding pairing_keeps_def by blast
qed

lemma pairing_keeps_step:
  assumes "i < length r" and "j < length r"
  shows "pairing_keeps (r, ps) (erase j r, ps @ [DevicePair (r ! i) (r ! j)])"
proof -
  have "mset (erase j r) + mset (map device (ps @ [DevicePair (r ! i) (r ! j)]))
          = mset r + mset (map device ps)"
    using mset_erase [OF assms(2)] by simp
  moreover have "set (map parent (ps @ [DevicePair (r ! i) (r ! j)])) \<subseteq> set (map parent ps) \<union> set r"
    using assms(1) by auto
  ultimately show ?thesis using set_erase [of j r] by (simp add: pairing_keeps_def)
qed

lemma p2p_i_keeps: "p2p_i h i s = Inr s' \<Longrightarrow> pairing_keeps s s'"
proof (induction h i s arbitrary: s' rule: p2p_i.induct)
  case (1 h i remaining pairs)
  show ?case
  proof (cases "i < length remaining")
    case False
    with "1.prems" show ?thesis
      by (simp add: pairing_keeps_refl p2p_i.simps [of h i remaining pairs])
  next
    case True
    note eq = p2p_i.simps [of h i remaining pairs]
    show ?thesis
    proof (cases "p2p_j h remaining i (Suc i)")
      case (Inl e)
      with True "1.prems" show ?thesis by (simp add: eq)
    next
      case (Inr found)
      show ?thesis
      proof (cases found)
        case None
        with True Inr "1.prems" "1.IH"(1) show ?thesis by (simp add: eq)
      next
        case (Some j)
        with Inr p2p_j_range have j: "j < length remaining" by blast
        from True Inr Some "1.prems" have
          "p2p_i h (Suc i) (erase j remaining, pairs @ [DevicePair (remaining ! i) (remaining ! j)]) = Inr s'"
          by (simp add: eq)
        from "1.IH"(2) [OF True Inr Some this]
        have "pairing_keeps (erase j remaining, pairs @ [DevicePair (remaining ! i) (remaining ! j)]) s'" .
        with pairing_keeps_step [OF True j] show ?thesis by (rule pairing_keeps_trans)
      qed
    qed
  qed
qed

lemma p2p_d_keeps: "p2p_d h d s = Inr s' \<Longrightarrow> pairing_keeps s s'"
proof (induction d arbitrary: s)
  case 0
  then show ?case by (simp add: pairing_keeps_refl)
next
  case (Suc d)
  then obtain t where "p2p_i h 0 s = Inr t" and "p2p_d h d t = Inr s'"
    by (auto simp: and_then_eq_Inr)
  with Suc.IH p2p_i_keeps show ?case by (blast intro: pairing_keeps_trans)
qed

lemma fallback_i_keeps: "fallback_i i s = Inr s' \<Longrightarrow> pairing_keeps s s'"
proof (induction i s arbitrary: s' rule: fallback_i.induct)
  case (1 i remaining pairs)
  note eq = fallback_i.simps [of i remaining pairs]
  show ?case
  proof (cases "i < length remaining")
    case False
    with "1.prems" show ?thesis by (simp add: pairing_keeps_refl eq)
  next
    case True
    show ?thesis
    proof (cases "Suc i < length remaining")
      case False
      with True "1.prems" show ?thesis by (simp add: eq)
    next
      case j: True
      with True "1.prems" have
        "fallback_i (Suc i) (erase (Suc i) remaining,
           pairs @ [DevicePair (remaining ! i) (remaining ! Suc i)]) = Inr s'"
        by (simp add: eq)
      from "1.IH" [OF True j this] pairing_keeps_step [OF True j]
      show ?thesis by (blast intro: pairing_keeps_trans)
    qed
  qed
qed

lemma fallback_d_keeps: "fallback_d d s = Inr s' \<Longrightarrow> pairing_keeps s s'"
proof (induction d arbitrary: s)
  case 0
  then show ?case by (simp add: pairing_keeps_refl)
next
  case (Suc d)
  then obtain t where "fallback_i 0 s = Inr t" and "fallback_d d t = Inr s'"
    by (auto simp: and_then_eq_Inr)
  with Suc.IH fallback_i_keeps show ?case by (blast intro: pairing_keeps_trans)
qed

text \<open>What is known of a pair list that \<open>compute\<close> returned.\<close>

lemma compute_Inr:
  assumes "compute h devices pairs0 = Inr ps"
  shows "\<exists>root rest. ps = DevicePair (- 1) root # rest
           \<and> pairs0 = []
           \<and> mset (map device ps) = mset devices
           \<and> final_checks devices ps
           \<and> set (map parent rest) \<subseteq> set devices"
proof -
  from assms obtain r1 p1 r2 p2 where
    a: "p2p_d h (remaining_depth (length devices)) (devices, pairs0) = Inr (r1, p1)" and
    b: "fallback_d (remaining_depth (length r1)) (r1, p1) = Inr (r2, p2)" and
    c: "length r2 = 1" and
    d: "final_checks devices (DevicePair (- 1) (r2 ! 0) # p2)" and
    e: "ps = DevicePair (- 1) (r2 ! 0) # p2"
    by (auto simp: compute_def and_then_eq_Inr split: if_splits)
  from p2p_d_keeps [OF a] fallback_d_keeps [OF b]
  have k: "pairing_keeps (devices, pairs0) (r2, p2)" by (rule pairing_keeps_trans)
  from c obtain x where x: "r2 = [x]" by (cases r2) auto
  from k x have m: "add_mset x (mset (map device p2)) = mset devices + mset (map device pairs0)"
    and pa: "set (map parent p2) \<subseteq> set (map parent pairs0) \<union> set devices"
    by (auto simp: pairing_keeps_def)
  from m have "size (add_mset x (mset (map device p2))) = size (mset devices + mset (map device pairs0))"
    by simp
  then have "Suc (length p2) = length devices + length pairs0" by simp
  moreover from d have "Suc (length p2) = length devices" by (simp add: final_checks_def)
  ultimately have p0: "pairs0 = []" by simp
  with m pa e x d show ?thesis by simp
qed

text \<open>
  C2: a pair list that \<open>DevicePair::compute\<close> returns starts with the root pair of
  parent \<open>- 1\<close>, has one pair per device, its devices are a permutation of the input,
  no pair is its own parent, and every parent other than \<open>- 1\<close> is the device of a
  pair.
\<close>

theorem compute_tree_well_formed:
  assumes "compute h devices pairs0 = Inr ps"
  shows "parent (ps ! 0) = - 1
       \<and> length ps = length devices
       \<and> mset (map device ps) = mset devices
       \<and> (\<forall>p\<in>set ps. parent p \<noteq> device p)
       \<and> (\<forall>p\<in>set ps. parent p \<noteq> - 1 \<longrightarrow> parent p \<in> device ` set ps)"
proof -
  from compute_Inr [OF assms] obtain root rest where
    ps: "ps = DevicePair (- 1) root # rest" and
    m: "mset (map device ps) = mset devices" and
    f: "final_checks devices ps" and
    pa: "set (map parent rest) \<subseteq> set devices" by blast
  from m have "set (map device ps) = set devices" by (metis set_mset_mset)
  with pa have "\<forall>p\<in>set rest. parent p \<in> device ` set ps" by auto
  with ps have "\<forall>p\<in>set ps. parent p \<noteq> - 1 \<longrightarrow> parent p \<in> device ` set ps" by auto
  with ps m f show ?thesis by (simp add: final_checks_def list_all_iff)
qed


lemma compute_example:
  "compute example_hip [0, 1, 2, 3] [] =
     Inr [DevicePair (- 1) 0, DevicePair 0 3, DevicePair 1 2, DevicePair 0 1]"
  by code_simp

theorem compute_tree_well_formed_witness:
  "\<exists>ps. compute example_hip [0, 1, 2, 3] [] = Inr ps
     \<and> ps = [DevicePair (- 1) 0, DevicePair 0 3, DevicePair 1 2, DevicePair 0 1]
     \<and> parent (ps ! 0) = - 1
     \<and> length ps = length [0, 1, 2, 3 :: int]
     \<and> mset (map device ps) = mset [0, 1, 2, 3]
     \<and> (\<forall>p\<in>set ps. parent p \<noteq> device p)
     \<and> (\<forall>p\<in>set ps. parent p \<noteq> - 1 \<longrightarrow> parent p \<in> device ` set ps)"
  using compute_tree_well_formed [OF compute_example] compute_example by blast

text \<open>
  C3 fails on the code: with three devices of which none can access another, phase 2
  pairs nothing, and the first pass of phase 3 pairs 0 with 1, leaves \<open>[0, 2]\<close>, and at
  \<open>i = 1\<close> reads \<open>remaining[2]\<close> of a vector of two.
\<close>

theorem fallback_three_devices_out_of_bounds:
  "p2p_d (hip_ok (\<lambda>_ _. False)) (remaining_depth 3) ([0, 1, 2], []) = Inr ([0, 1, 2], [])
   \<and> fallback_i 1 ([0, 2], [DevicePair 0 1]) = Inl OutOfBounds
   \<and> fallback_i 0 ([0, 1, 2], []) = Inl OutOfBounds
   \<and> compute (hip_ok (\<lambda>_ _. False)) [0, 1, 2] [] = Inl OutOfBounds"
  by code_simp

lemma compute_single: "g \<noteq> - 1 \<Longrightarrow> compute h [g] [] = Inr [DevicePair (- 1) g]"
  by (simp add: compute_def remaining_depth.simps [of 1] remaining_depth.simps [of "Suc 0"] final_checks_def)

lemma compute_rejects:
  assumes "gpus = [] \<or> \<not> distinct gpus"
  shows "\<exists>e. compute h gpus [] = Inl e"
proof (cases "compute h gpus []")
  case (Inl e)
  then show ?thesis by blast
next
  case (Inr ps)
  from compute_Inr [OF Inr] obtain root rest where
    ps: "ps = DevicePair (- 1) root # rest" and
    m: "mset (map device ps) = mset gpus" and
    f: "final_checks gpus ps" by blast
  from f have "distinct (map device ps)" by (simp add: final_checks_def)
  with m have "distinct gpus" using mset_eq_imp_distinct_iff by blast
  moreover from f ps have "gpus \<noteq> []" by (auto simp: final_checks_def)
  ultimately show ?thesis using assms by blast
qed

text \<open>The ways in which the planner ends without a result.\<close>

lemma board_d_Inl: "board_d h d r = Inl e \<Longrightarrow> e = HipFailed"
  by (induction d) (auto split: if_splits)

lemma p2p_j_Inl: "p2p_j h r i j = Inl e \<Longrightarrow> e = HipFailed"
proof (induction h r i j rule: p2p_j.induct)
  case (1 h remaining i j)
  then show ?case
    by (simp add: p2p_j.simps [of h remaining i j] split: if_splits option.splits)
qed

lemma p2p_i_Inl: "p2p_i h i s = Inl e \<Longrightarrow> e = HipFailed"
proof (induction h i s rule: p2p_i.induct)
  case (1 h i remaining pairs)
  then show ?case
    by (auto simp: p2p_i.simps [of h i remaining pairs] dest: p2p_j_Inl
        split: if_splits sum.splits option.splits)
qed

lemma p2p_d_Inl: "p2p_d h d s = Inl e \<Longrightarrow> e = HipFailed"
proof (induction d arbitrary: s)
  case 0
  then show ?case by simp
next
  case (Suc d)
  then show ?case by (cases "p2p_i h 0 s") (auto dest: p2p_i_Inl)
qed

lemma fallback_i_Inl: "fallback_i i s = Inl e \<Longrightarrow> e = OutOfBounds"
proof (induction i s rule: fallback_i.induct)
  case (1 i remaining pairs)
  then show ?case
    by (simp add: fallback_i.simps [of i remaining pairs] split: if_splits)
qed

lemma fallback_d_Inl: "fallback_d d s = Inl e \<Longrightarrow> e = OutOfBounds"
proof (induction d arbitrary: s)
  case 0
  then show ?case by simp
next
  case (Suc d)
  then show ?case by (cases "fallback_i 0 s") (auto dest: fallback_i_Inl)
qed

lemma compute_Inl:
  assumes "compute h devices pairs = Inl e"
  shows "e = CheckFailed \<or> e = HipFailed \<or> e = OutOfBounds"
proof (cases "board_d h (remaining_depth (length devices)) devices")
  case (Inl x)
  with assms board_d_Inl show ?thesis by (fastforce simp: compute_def)
next
  case b: (Inr u)
  show ?thesis
  proof (cases "p2p_d h (remaining_depth (length devices)) (devices, pairs)")
    case (Inl x)
    with assms b p2p_d_Inl show ?thesis by (fastforce simp: compute_def)
  next
    case p: (Inr s1)
    obtain r1 p1 where s1: "s1 = (r1, p1)" by (cases s1)
    show ?thesis
    proof (cases "fallback_d (remaining_depth (length r1)) (r1, p1)")
      case (Inl x)
      with assms b p s1 fallback_d_Inl show ?thesis by (fastforce simp: compute_def)
    next
      case (Inr s2)
      with assms b p s1 show ?thesis by (auto simp: compute_def split: if_splits prod.splits)
    qed
  qed
qed

lemma compute_empty: "compute h [] [] = Inl CheckFailed"
  by (simp add: compute_def remaining_depth.simps [of 0])

lemma compute_minus_one: "compute h [- 1] [] = Inl CheckFailed"
  by (simp add: compute_def remaining_depth.simps [of 1] remaining_depth.simps [of "Suc 0"]
      final_checks_def)

text \<open>
  C5, as the code has it: for an empty device list or one with a duplicate, on which
  the fallback phase of the planner stays inside its vector, the planner that
  \<open>Prepare\<close> calls first ends in a failed \<open>CHECK\<close> or a failed runtime call, so \<open>Run\<close> ends
  there, before any replica is constructed or thread started. For the empty list it
  is the failed \<open>CHECK\<close>. A single device is accepted unless it is \<open>- 1\<close>: \<open>Run\<close> constructs
  nothing, starts no thread and runs the root solver.
\<close>

theorem Run_rejects_empty_or_duplicate:
  "(gpus = [] \<or> \<not> distinct gpus \<longrightarrow> compute h gpus [] \<noteq> Inl OutOfBounds \<longrightarrow>
      (\<exists>e. (e = CheckFailed \<or> e = HipFailed)
         \<and> compute h gpus [] = Inl e \<and> Prepare h this gpus syncs w = Inl e \<and> Run h this gpus w = Inl e))
   \<and> Run h this [] w = Inl CheckFailed
   \<and> Run h this [g] w =
       (if g = - 1 then Inl CheckFailed else Inr (Solve (solver_' (p2psyncs w this)) w))"
proof (intro conjI impI)
  assume "gpus = [] \<or> \<not> distinct gpus" and range: "compute h gpus [] \<noteq> Inl OutOfBounds"
  from compute_rejects [OF this(1)] obtain e where e: "compute h gpus [] = Inl e" by blast
  from compute_Inl [OF e] e range have "e = CheckFailed \<or> e = HipFailed" by auto
  with e
  show "\<exists>e. (e = CheckFailed \<or> e = HipFailed)
         \<and> compute h gpus [] = Inl e \<and> Prepare h this gpus syncs w = Inl e \<and> Run h this gpus w = Inl e"
    by (simp add: Prepare_def Run_def)
next
  show "Run h this [] w = Inl CheckFailed"
    by (simp add: Run_def Prepare_def compute_empty)
next
  show "Run h this [g] w =
       (if g = - 1 then Inl CheckFailed else Inr (Solve (solver_' (p2psyncs w this)) w))"
    by (simp add: Run_def Prepare_def compute_single compute_minus_one)
qed

lemma compute_duplicate_example: "compute example_hip [0, 0] [] = Inl CheckFailed"
  by code_simp

theorem Run_rejects_empty_or_duplicate_witness:
  "compute example_hip [0, 0] [] = Inl CheckFailed
   \<and> Run example_hip 0 [0, 0] root_world = Inl CheckFailed
   \<and> Run example_hip 0 [0] root_world = Inr (Solve 0 root_world)"
proof -
  from Run_rejects_empty_or_duplicate [of "[0, 0]" example_hip 0 "[]" root_world 0]
  obtain e where "compute example_hip [0, 0] [] = Inl e" and
    "Run example_hip 0 [0, 0] root_world = Inl e" and
    "Run example_hip 0 [0] root_world = Inr (Solve (solver_' (p2psyncs root_world 0)) root_world)"
    by (auto simp: compute_duplicate_example)
  then show ?thesis by (simp add: compute_duplicate_example root_world_def)
qed

text \<open>C5 as stated fails for a single device: \<open>Run\<close> returns after running the root solver.\<close>

theorem Run_single_device_counterexample:
  "Run example_hip 0 [0] root_world = Inr (root_world\<lparr>solved := [0]\<rparr>)"
  by (simp add: Run_def Prepare_def compute_single Solve_def root_world_def example_world_def)

section \<open>Constructors and destructors: proofs\<close>

subsection \<open>What the runtime calls and kernels change\<close>

lemma hipSetDevice_Inr: "hipSetDevice h d w = Inr w' \<Longrightarrow> w' = w\<lparr>current_device := d\<rparr>"
  by (auto simp: hipSetDevice_def split: if_splits)

lemma hipMalloc_Inr:
  "hipMalloc h n w = Inr (p, w') \<Longrightarrow>
     p = Ptr (next_block w) 0
     \<and> w' = w\<lparr>mem := (mem w)(next_block w \<mapsto> (current_device w, replicate n None)),
              next_block := Suc (next_block w)\<rparr>"
  by (auto simp: hipMalloc_def split: if_splits)

lemma hipFree_Inr: "hipFree p w = Inr w' \<Longrightarrow> w' = w\<lparr>mem := (mem w)(block p := None)\<rparr>"
  by (auto simp: hipFree_def split: if_splits)

lemma write_cells_Inr:
  "write_cells p vs m = Inr m' \<Longrightarrow>
     \<exists>d cells. m (block p) = Some (d, cells) \<and> offset p + length vs \<le> length cells
       \<and> m' = m(block p \<mapsto> (d, take (offset p) cells @ map Some vs @ drop (offset p + length vs) cells))"
  by (auto simp: write_cells_def split: option.splits if_splits)

lemma caffe_copy_Inr:
  "caffe_copy n src dst w = Inr w' \<Longrightarrow>
     n \<le> length src \<and> (\<exists>m. write_cells dst (take n src) (mem w) = Inr m \<and> w' = w\<lparr>mem := m\<rparr>)"
  by (auto simp: caffe_copy_def and_then_eq_Inr split: if_splits)

lemma caffe_gpu_set_Inr:
  "caffe_gpu_set n alpha y w = Inr w' \<Longrightarrow>
     \<exists>m. write_cells y (replicate n alpha) (mem w) = Inr m \<and> w' = w\<lparr>mem := m\<rparr>"
  by (auto simp: caffe_gpu_set_def and_then_eq_Inr)

lemma blobs_update_frame: "\<exists>bl m. w\<lparr>blobs := x\<rparr> = w\<lparr>blobs := bl, mem := m\<rparr>"
proof -
  have "w\<lparr>blobs := x\<rparr> = w\<lparr>blobs := x, mem := mem w\<rparr>" by simp
  then show ?thesis by blast
qed

lemma apply_op_frame:
  assumes "apply_op op b p w = Inr w'"
  shows "\<exists>bl m. w' = w\<lparr>blobs := bl, mem := m\<rparr>"
proof (cases op)
  case copy
  with assms obtain m where "w' = w\<lparr>mem := m\<rparr>"
    by (auto simp: apply_op_def dest: caffe_copy_Inr)
  then have "w' = w\<lparr>blobs := blobs w, mem := m\<rparr>" by simp
  then show ?thesis by blast
next
  case replace_cpu
  with assms show ?thesis using blobs_update_frame by (auto simp: apply_op_def)
next
  case replace_gpu
  with assms show ?thesis using blobs_update_frame by (auto simp: apply_op_def)
next
  case replace_cpu_diff
  with assms show ?thesis using blobs_update_frame by (auto simp: apply_op_def)
next
  case replace_gpu_diff
  with assms show ?thesis using blobs_update_frame by (auto simp: apply_op_def)
qed

lemma apply_loop_frame:
  "apply_loop op bs p w = Inr (q, w') \<Longrightarrow> \<exists>bl m. w' = w\<lparr>blobs := bl, mem := m\<rparr>"
proof (induction bs arbitrary: p w)
  case Nil
  then have "w' = w\<lparr>blobs := blobs w, mem := mem w\<rparr>" by simp
  then show ?case by blast
next
  case (Cons b bs)
  from Cons.prems obtain w1 where
    s1: "apply_op op b p w = Inr w1" and
    s2: "apply_loop op bs (ptr_add p (blob_count (blobs w b))) w1 = Inr (q, w')"
    by (auto split: sum.splits)
  from apply_op_frame [OF s1] obtain bl1 m1 where "w1 = w\<lparr>blobs := bl1, mem := m1\<rparr>" by blast
  moreover from Cons.IH [OF s2] obtain bl2 m2 where "w' = w1\<lparr>blobs := bl2, mem := m2\<rparr>" by blast
  ultimately have "w' = w\<lparr>blobs := bl2, mem := m2\<rparr>" by simp
  then show ?case by blast
qed

lemma apply_buffers_frame:
  "apply_buffers bs buffer t op w = Inr w' \<Longrightarrow> \<exists>bl m. w' = w\<lparr>blobs := bl, mem := m\<rparr>"
  by (auto simp: apply_buffers_def split: sum.splits if_splits dest: apply_loop_frame)

lemma GPUParams_ctor_frame:
  assumes "GPUParams_ctor h rs dev w = Inr (g, w')"
  shows "\<exists>bl m. w' = w\<lparr>blobs := bl, mem := m, next_block := Suc (Suc (next_block w))\<rparr>"
proof -
  from assms obtain w1 w2 w3 w4 w5 pd pf where
    s1: "hipSetDevice h dev w = Inr w1" and
    s2: "hipMalloc h (Params_ctor rs w) w1 = Inr (pd, w2)" and
    s3: "apply_buffers (learnable_params (solvers w2 rs)) pd (Params_ctor rs w) copy w2 = Inr w3" and
    s4: "hipMalloc h (Params_ctor rs w) w3 = Inr (pf, w4)" and
    s5: "caffe_gpu_set (Params_ctor rs w) 0 pf w4 = Inr w5" and
    s6: "hipSetDevice h (current_device w) w5 = Inr w'"
    by (auto simp: GPUParams_ctor_def Let_def and_then_eq_Inr)
  from apply_buffers_frame [OF s3] obtain bl m3 where w3: "w3 = w2\<lparr>blobs := bl, mem := m3\<rparr>" by blast
  from caffe_gpu_set_Inr [OF s5] obtain m5 where w5: "w5 = w4\<lparr>mem := m5\<rparr>" by blast
  from hipSetDevice_Inr [OF s1] hipMalloc_Inr [OF s2] w3 hipMalloc_Inr [OF s4] w5 hipSetDevice_Inr [OF s6]
  have "w' = w\<lparr>blobs := bl, mem := m5, next_block := Suc (Suc (next_block w))\<rparr>" by simp
  then show ?thesis by blast
qed

lemma configure_frame:
  "configure base slv w = Inr w' \<Longrightarrow> \<exists>bl m. w' = w\<lparr>blobs := bl, mem := m\<rparr>"
proof -
  assume "configure base slv w = Inr w'"
  then obtain w1 where
    a: "apply_buffers (learnable_params (solvers w slv)) (data_' base) (size_' base) replace_gpu w = Inr w1" and
    b: "apply_buffers (learnable_params (solvers w slv)) (diff_' base) (size_' base) replace_gpu_diff w1 = Inr w'"
    by (auto simp: configure_def Let_def and_then_eq_Inr)
  from apply_buffers_frame [OF a] obtain bl1 m1 where "w1 = w\<lparr>blobs := bl1, mem := m1\<rparr>" by blast
  moreover from apply_buffers_frame [OF b] obtain bl2 m2 where "w' = w1\<lparr>blobs := bl2, mem := m2\<rparr>" by blast
  ultimately have "w' = w\<lparr>blobs := bl2, mem := m2\<rparr>" by simp
  then show ?thesis by blast
qed

lemma ctor_solver_None: "ctor_solver rs None prm w = (rs, w)"
  by (simp add: ctor_solver_def)

lemma ctor_solver_Some:
  "\<exists>bl nb lp. ctor_solver rs (Some p) prm w =
     (next_solver w,
      w\<lparr>blobs := bl, next_blob := nb,
        solvers := (solvers w)(next_solver w := \<lparr>param = prm, learnable_params = lp, iter = 0, callbacks = []\<rparr>),
        next_solver := Suc (next_solver w), root_solver_flag := True\<rparr>)"
  by (simp add: ctor_solver_def new_WorkerSolver_def Let_def) blast

lemma ctor_peer_None: "ctor_peer h dev sz None w = Inr (None, w)"
  by (simp add: ctor_peer_def)

lemma hipDeviceEnablePeerAccess_Inr:
  "hipDeviceEnablePeerAccess h peer w = Inr w' \<Longrightarrow> \<exists>pe. w' = w\<lparr>peer_enabled := pe\<rparr>"
  by (auto simp: hipDeviceEnablePeerAccess_def split: if_splits)

lemma hipDeviceDisablePeerAccess_Inr:
  "hipDeviceDisablePeerAccess h peer w = Inr w' \<Longrightarrow> \<exists>pe. w' = w\<lparr>peer_enabled := pe\<rparr>"
  by (auto simp: hipDeviceDisablePeerAccess_def split: if_splits)

lemma ctor_peer_Some:
  assumes "ctor_peer h dev sz (Some p) w = Inr (pg, w')"
  shows "\<exists>m pe. pg = Some (Ptr (next_block w) 0)
           \<and> w' = w\<lparr>peer_enabled := pe, mem := m, next_block := Suc (next_block w),
                    current_device := dev\<rparr>"
proof -
  let ?peer = "device_id (param (solvers w (solver_' (p2psyncs w p))))"
  from assms obtain access w1 w2 w3 q where
    e: "(if access then hipDeviceEnablePeerAccess h ?peer w else Inr w) = Inr w1" and
    s2: "hipSetDevice h ?peer w1 = Inr w2" and
    s3: "hipMalloc h sz w2 = Inr (q, w3)" and
    s4: "hipSetDevice h dev w3 = Inr w'" and
    pg: "pg = Some q"
    by (auto simp: ctor_peer_def Let_def and_then_eq_Inr split: option.splits)
  from e obtain pe where w1: "w1 = w\<lparr>peer_enabled := pe\<rparr>"
  proof (cases access)
    case True
    with e hipDeviceEnablePeerAccess_Inr that show ?thesis by fastforce
  next
    case False
    with e have "w1 = w\<lparr>peer_enabled := peer_enabled w\<rparr>" by simp
    with that show ?thesis by blast
  qed
  from w1 hipSetDevice_Inr [OF s2] hipMalloc_Inr [OF s3] hipSetDevice_Inr [OF s4] pg
  have "pg = Some (Ptr (next_block w) 0)
      \<and> w' = w\<lparr>peer_enabled := pe,
                 mem := (mem w)(next_block w \<mapsto> (?peer, replicate sz None)),
                 next_block := Suc (next_block w), current_device := dev\<rparr>"
    by simp
  then show ?thesis by blast
qed

lemma GPUParams_ctor_device:
  "GPUParams_ctor h rs dev w = Inr (g, w') \<Longrightarrow> current_device w' = current_device w"
  by (auto dest!: GPUParams_ctor_frame)

text \<open>The steps of a constructor of \<open>P2PSync\<close> that returned.\<close>

lemma P2PSync_ctor_Inr:
  assumes "P2PSync_ctor h this rs par prm w = Inr w'"
  obtains base w1 w2 slv w3 w4 pg w5 w6 where
    "GPUParams_ctor h rs (device_id prm) w = Inr (base, w1)"
    "hipSetDevice h (device_id prm) w1 = Inr w2"
    "ctor_solver rs par prm w2 = (slv, w3)"
    "configure base slv w3 = Inr w4"
    "ctor_peer h (device_id prm) (size_' base) par (add_callback slv this w4) = Inr (pg, w5)"
    "hipSetDevice h (current_device w1) w5 = Inr w6"
    "w' = w6\<lparr>p2psyncs := (p2psyncs w6)(this :=
              \<lparr>size_' = size_' base, data_' = data_' base, diff_' = diff_' base,
               device_' = device_id prm, parent_' = par, children_' = [], queue_' = [],
               initial_iter_' = iter (solvers w1 rs), solver_' = slv, parent_grads_' = pg\<rparr>)\<rparr>"
proof -
  from assms obtain base w1 w2 w4 pg w5 w6 where
    a: "GPUParams_ctor h rs (device_id prm) w = Inr (base, w1)"
       "hipSetDevice h (device_id prm) w1 = Inr w2"
       "configure base (fst (ctor_solver rs par prm w2)) (snd (ctor_solver rs par prm w2)) = Inr w4"
       "ctor_peer h (device_id prm) (size_' base) par
          (add_callback (fst (ctor_solver rs par prm w2)) this w4) = Inr (pg, w5)"
       "hipSetDevice h (current_device w1) w5 = Inr w6"
       "w' = w6\<lparr>p2psyncs := (p2psyncs w6)(this :=
              \<lparr>size_' = size_' base, data_' = data_' base, diff_' = diff_' base,
               device_' = device_id prm, parent_' = par, children_' = [], queue_' = [],
               initial_iter_' = iter (solvers w1 rs), solver_' = fst (ctor_solver rs par prm w2),
               parent_grads_' = pg\<rparr>)\<rparr>"
    by (auto simp: P2PSync_ctor_def Let_def and_then_eq_Inr case_prod_beta)
  have b: "ctor_solver rs par prm w2 =
      (fst (ctor_solver rs par prm w2), snd (ctor_solver rs par prm w2))" by simp
  show thesis by (rule that [OF a(1) a(2) b a(3) a(4) a(5) a(6)])
qed

lemma P2PSync_ctor_device:
  assumes "P2PSync_ctor h this rs par prm w = Inr w'"
  shows "current_device w' = current_device w"
proof -
  from assms obtain base w1 w5 w6 obj where
    a: "GPUParams_ctor h rs (device_id prm) w = Inr (base, w1)" and
    b: "hipSetDevice h (current_device w1) w5 = Inr w6" and
    c: "w' = w6\<lparr>p2psyncs := (p2psyncs w6)(this := obj)\<rparr>"
    by (rule P2PSync_ctor_Inr)
  from hipSetDevice_Inr [OF b] c GPUParams_ctor_device [OF a] show ?thesis by simp
qed

lemma GPUParams_dtor_frame: "GPUParams_dtor g w = Inr w' \<Longrightarrow> \<exists>m. w' = w\<lparr>mem := m\<rparr>"
  by (auto simp: GPUParams_dtor_def and_then_eq_Inr dest!: hipFree_Inr)

lemma P2PSync_dtor_device:
  assumes "P2PSync_dtor h this w = Inr w'"
  shows "current_device w' = current_device w"
proof -
  from assms obtain w2 w3 where
    b: "hipSetDevice h (current_device w) w2 = Inr w3" and
    c: "GPUParams_dtor (p2psyncs w3 this) w3 = Inr w'"
    by (auto simp: P2PSync_dtor_def Let_def and_then_eq_Inr)
  from hipSetDevice_Inr [OF b] GPUParams_dtor_frame [OF c] show ?thesis by auto
qed

text \<open>
  C9: whenever the constructor of \<open>GPUParams\<close>, the constructor of \<open>P2PSync\<close> or the
  destructor of \<open>P2PSync\<close> returns, the active device is the one it was on entry.
\<close>

theorem active_device_restored:
  "(GPUParams_ctor h rs dev w = Inr (g, w1) \<longrightarrow> current_device w1 = current_device w)
   \<and> (P2PSync_ctor h this rs par prm w = Inr w2 \<longrightarrow> current_device w2 = current_device w)
   \<and> (P2PSync_dtor h this w = Inr w3 \<longrightarrow> current_device w3 = current_device w)"
  using GPUParams_ctor_device P2PSync_ctor_device P2PSync_dtor_device by blast


lemma host_values_Nil [simp]: "host_values w [] = []"
  by (simp add: host_values_def)

lemma host_values_Cons [simp]:
  "host_values w (b # bs) = take (blob_count (blobs w b)) (cpu_data (blobs w b)) @ host_values w bs"
  by (simp add: host_values_def)

lemma apply_op_copy_Inr:
  assumes "apply_op copy b p w = Inr w'" and "mem w (block p) = Some (d, cells)"
  shows "blob_count (blobs w b) \<le> length (cpu_data (blobs w b))
       \<and> offset p + blob_count (blobs w b) \<le> length cells
       \<and> w' = w\<lparr>mem := (mem w)(block p \<mapsto>
                  (d, take (offset p) cells
                      @ map Some (take (blob_count (blobs w b)) (cpu_data (blobs w b)))
                      @ drop (offset p + blob_count (blobs w b)) cells))\<rparr>"
proof -
  let ?n = "blob_count (blobs w b)"
  from assms(1) have c: "caffe_copy ?n (cpu_data (blobs w b)) p w = Inr w'"
    by (simp add: apply_op_def)
  from caffe_copy_Inr [OF c] obtain m where
    n: "?n \<le> length (cpu_data (blobs w b))" and
    wr: "write_cells p (take ?n (cpu_data (blobs w b))) (mem w) = Inr m" and
    w': "w' = w\<lparr>mem := m\<rparr>" by blast
  from n have l: "length (take ?n (cpu_data (blobs w b))) = ?n" by simp
  from write_cells_Inr [OF wr] assms(2) l w' n show ?thesis by auto
qed

lemma copy_loop_cells:
  assumes "apply_loop copy bs p w = Inr (q, w')" and "mem w (block p) = Some (d, cells)"
  shows "\<exists>cells'. w' = w\<lparr>mem := (mem w)(block p \<mapsto> (d, cells'))\<rparr>
           \<and> length cells' = length cells
           \<and> take (offset p) cells' = take (offset p) cells
           \<and> take (count_sum w bs) (drop (offset p) cells') = map Some (host_values w bs)"
  using assms
proof (induction bs arbitrary: p w cells)
  case Nil
  then have "w' = w\<lparr>mem := (mem w)(block p \<mapsto> (d, cells))\<rparr>"
    by (simp add: fun_upd_idem)
  moreover have "take (count_sum w []) (drop (offset p) cells) = map Some (host_values w [])"
    by simp
  ultimately show ?case by blast
next
  case (Cons b bs)
  let ?n = "blob_count (blobs w b)"
  let ?src = "take ?n (cpu_data (blobs w b))"
  let ?c1 = "take (offset p) cells @ map Some ?src @ drop (offset p + ?n) cells"
  from Cons.prems(1) obtain w1 where
    s1: "apply_op copy b p w = Inr w1" and
    s2: "apply_loop copy bs (ptr_add p ?n) w1 = Inr (q, w')"
    by (auto split: sum.splits)
  from apply_op_copy_Inr [OF s1 Cons.prems(2)] have
    n: "?n \<le> length (cpu_data (blobs w b))" and
    fit: "offset p + ?n \<le> length cells" and
    w1: "w1 = w\<lparr>mem := (mem w)(block p \<mapsto> (d, ?c1))\<rparr>" by auto
  from n have ls: "length ?src = ?n" by simp
  from fit ls have lc1: "length ?c1 = length cells" by simp
  from w1 have m1: "mem w1 (block (ptr_add p ?n)) = Some (d, ?c1)"
    by (simp add: ptr_add_def)
  from w1 have cs: "count_sum w1 bs = count_sum w bs" and hv: "host_values w1 bs = host_values w bs"
    by (simp_all add: count_sum_def host_values_def)
  from Cons.IH [OF s2 m1] obtain cells' where
    w': "w' = w1\<lparr>mem := (mem w1)(block (ptr_add p ?n) \<mapsto> (d, cells'))\<rparr>" and
    len: "length cells' = length ?c1" and
    pre: "take (offset (ptr_add p ?n)) cells' = take (offset (ptr_add p ?n)) ?c1" and
    post: "take (count_sum w1 bs) (drop (offset (ptr_add p ?n)) cells') = map Some (host_values w1 bs)"
    by blast
  from pre have pre': "take (offset p + ?n) cells' = take (offset p) cells @ map Some ?src"
    using fit ls by (simp add: ptr_add_def)
  have a: "w' = w\<lparr>mem := (mem w)(block p \<mapsto> (d, cells'))\<rparr>"
    using w' w1 by (simp add: ptr_add_def)
  have b: "length cells' = length cells" using len lc1 by simp
  have "take (offset p) cells' = take (offset p) (take (offset p + ?n) cells')" by simp
  also have "\<dots> = take (offset p) cells" using fit by (simp add: pre' del: take_take)
  finally have c: "take (offset p) cells' = take (offset p) cells" .
  have "take ?n (drop (offset p) cells') = drop (offset p) (take (offset p + ?n) cells')"
    by (simp add: drop_take)
  also have "\<dots> = map Some ?src" using fit by (simp add: pre')
  finally have first: "take ?n (drop (offset p) cells') = map Some ?src" .
  have "take (count_sum w (b # bs)) (drop (offset p) cells')
          = take ?n (drop (offset p) cells') @ take (count_sum w bs) (drop (offset p + ?n) cells')"
    using take_add [of ?n "count_sum w bs" "drop (offset p) cells'"]
    by (simp add: add.commute [of ?n "offset p"])
  also have "\<dots> = map Some ?src @ map Some (host_values w bs)"
    using first post cs hv by (simp add: ptr_add_def)
  finally have e: "take (count_sum w (b # bs)) (drop (offset p) cells') = map Some (host_values w (b # bs))"
    by simp
  from a b c e show ?case by blast
qed

text \<open>
  C10: when the constructor of \<open>GPUParams\<close> returns, \<open>data_'\<close> is an allocation of
  \<open>size_'\<close> cells on the given device that starts with the host values of the
  learnable tensors in list order (and is nothing else when there is any value), and
  \<open>diff_'\<close> is an allocation of \<open>size_'\<close> zeros.
\<close>

theorem GPUParams_ctor_buffers:
  assumes "GPUParams_ctor h rs dev w = Inr (g, w')"
  shows "\<exists>cells. mem w' (block (data_' g)) = Some (dev, cells)
           \<and> offset (data_' g) = 0
           \<and> length cells = size_' g
           \<and> size_' g = max 1 (count_sum w (learnable_params (solvers w rs)))
           \<and> take (count_sum w (learnable_params (solvers w rs))) cells
                = map Some (host_values w (learnable_params (solvers w rs)))
           \<and> mem w' (block (diff_' g)) = Some (dev, replicate (size_' g) (Some 0))
           \<and> offset (diff_' g) = 0"
proof -
  let ?sz = "Params_ctor rs w"
  let ?net = "learnable_params (solvers w rs)"
  from assms obtain w1 w2 w3 w4 w5 pd pf where
    s1: "hipSetDevice h dev w = Inr w1" and
    s2: "hipMalloc h ?sz w1 = Inr (pd, w2)" and
    s3: "apply_buffers (learnable_params (solvers w2 rs)) pd ?sz copy w2 = Inr w3" and
    s4: "hipMalloc h ?sz w3 = Inr (pf, w4)" and
    s5: "caffe_gpu_set ?sz 0 pf w4 = Inr w5" and
    s6: "hipSetDevice h (current_device w) w5 = Inr w'" and
    g: "g = \<lparr>size_' = ?sz, data_' = pd, diff_' = pf\<rparr>"
    by (auto simp: GPUParams_ctor_def Let_def and_then_eq_Inr)
  note w1 = hipSetDevice_Inr [OF s1]
  from hipMalloc_Inr [OF s2] w1 have
    pd: "pd = Ptr (next_block w) 0" and
    w2: "w2 = w\<lparr>current_device := dev,
                 mem := (mem w)(next_block w \<mapsto> (dev, replicate ?sz None)),
                 next_block := Suc (next_block w)\<rparr>" by simp_all
  from w2 have net: "learnable_params (solvers w2 rs) = ?net" by simp
  from s3 net obtain q where l: "apply_loop copy ?net pd w2 = Inr (q, w3)"
    by (auto simp: apply_buffers_def split: sum.splits if_splits)
  from s3 net l have "?sz = (if q = pd then 1 else ptr_diff q pd)"
    by (auto simp: apply_buffers_def split: if_splits)
  moreover from apply_loop_ptr [OF l] w2 have "q = ptr_add pd (count_sum w ?net)"
    by (simp add: count_sum_def)
  ultimately have "?sz = (if ptr_add pd (count_sum w ?net) = pd then 1
                          else ptr_diff (ptr_add pd (count_sum w ?net)) pd)"
    by simp
  then have sz: "?sz = max 1 (count_sum w ?net)"
    by (simp only: check_value)
  from w2 pd have m2: "mem w2 (block pd) = Some (dev, replicate ?sz None)" by simp
  from copy_loop_cells [OF l m2] obtain cells where
    w3: "w3 = w2\<lparr>mem := (mem w2)(block pd \<mapsto> (dev, cells))\<rparr>" and
    len: "length cells = ?sz" and
    tk: "take (count_sum w2 ?net) (drop (offset pd) cells) = map Some (host_values w2 ?net)"
    by auto
  from w2 have "count_sum w2 ?net = count_sum w ?net" "host_values w2 ?net = host_values w ?net"
    by (simp_all add: count_sum_def host_values_def)
  with tk pd have tk': "take (count_sum w ?net) cells = map Some (host_values w ?net)" by simp
  from hipMalloc_Inr [OF s4] w3 w2 pd have
    pf: "pf = Ptr (Suc (next_block w)) 0" and
    w4: "w4 = w3\<lparr>mem := (mem w3)(Suc (next_block w) \<mapsto> (dev, replicate ?sz None)),
                  next_block := Suc (Suc (next_block w))\<rparr>" by simp_all
  from caffe_gpu_set_Inr [OF s5] obtain m5 where
    wr: "write_cells pf (replicate ?sz 0) (mem w4) = Inr m5" and w5: "w5 = w4\<lparr>mem := m5\<rparr>" by blast
  from write_cells_Inr [OF wr] w4 pf have
    m5: "m5 = (mem w4)(Suc (next_block w) \<mapsto> (dev, replicate ?sz (Some 0)))"
    by auto
  from hipSetDevice_Inr [OF s6] w5 m5 w4 w3 w2 pd pf g len tk' sz
  show ?thesis by simp
qed

lemmas eval_defs = GPUParams_ctor_def Params_ctor_def example_hip_def hip_ok_def hipSetDevice_def hipMalloc_def
    apply_buffers_def apply_op_def caffe_copy_def caffe_gpu_set_def write_cells_def ptr_add_def ptr_diff_def
    total_size_def example_world_def example_solver_def new_blob_def Let_def root_world_def
    P2PSync_ctor_def ctor_solver_def ctor_peer_def new_WorkerSolver_def add_callback_def configure_def
    hipDeviceEnablePeerAccess_def hipDeviceDisablePeerAccess_def P2PSync_dtor_def dtor_peer_def
    GPUParams_dtor_def hipFree_def null_sync_def

lemma example_GPUParams_ctor: "\<not> isl (GPUParams_ctor example_hip 0 3 example_world)"
  by (simp add: eval_defs)

lemma example_P2PSync_ctor:
  "\<not> isl (P2PSync_ctor example_hip 1 0 (Some 0) ((param example_solver)\<lparr>device_id := 3\<rparr>) root_world)"
  by (simp add: eval_defs upt_rec)

lemma example_P2PSync_dtor: "\<not> isl (P2PSync_dtor example_hip 0 (root_world\<lparr>current_device := 2\<rparr>))"
  by (simp add: eval_defs)

lemma not_isl_Inr: "\<not> isl r \<Longrightarrow> \<exists>x. r = Inr x"
  by (cases r) simp_all

theorem active_device_restored_witness:
  "(\<exists>g w1. GPUParams_ctor example_hip 0 3 example_world = Inr (g, w1) \<and> current_device w1 = 0)
   \<and> (\<exists>w2. P2PSync_ctor example_hip 1 0 (Some 0) ((param example_solver)\<lparr>device_id := 3\<rparr>) root_world
              = Inr w2 \<and> current_device w2 = 0)
   \<and> (\<exists>w3. P2PSync_dtor example_hip 0 (root_world\<lparr>current_device := 2\<rparr>) = Inr w3
              \<and> current_device w3 = 2)"
proof -
  from not_isl_Inr [OF example_GPUParams_ctor] obtain g w1 where
    a: "GPUParams_ctor example_hip 0 3 example_world = Inr (g, w1)" by fastforce
  from not_isl_Inr [OF example_P2PSync_ctor] obtain w2 where
    b: "P2PSync_ctor example_hip 1 0 (Some 0) ((param example_solver)\<lparr>device_id := 3\<rparr>) root_world = Inr w2"
    by blast
  from not_isl_Inr [OF example_P2PSync_dtor] obtain w3 where
    c: "P2PSync_dtor example_hip 0 (root_world\<lparr>current_device := 2\<rparr>) = Inr w3" by blast
  have "current_device w1 = 0"
    using active_device_restored [THEN conjunct1, rule_format, OF a]
    by (simp add: example_world_def)
  moreover have "current_device w2 = 0"
    using active_device_restored [THEN conjunct2, THEN conjunct1, rule_format, OF b]
    by (simp add: root_world_def example_world_def)
  moreover have "current_device w3 = 2"
    using active_device_restored [THEN conjunct2, THEN conjunct2, rule_format, OF c]
    by simp
  ultimately show ?thesis using a b c by blast
qed

lemma example_count_sum: "count_sum example_world [10, 11] = 5"
  by (simp add: count_sum_def example_world_def new_blob_def)

lemma example_host_values: "host_values example_world [10, 11] = [1, 2, 3, 4, 5]"
  by (simp add: host_values_def example_world_def new_blob_def)

theorem GPUParams_ctor_buffers_witness:
  "\<exists>g w'. GPUParams_ctor example_hip 0 3 example_world = Inr (g, w')
     \<and> mem w' (block (data_' g)) = Some (3, [Some 1, Some 2, Some 3, Some 4, Some 5])
     \<and> mem w' (block (diff_' g)) = Some (3, [Some 0, Some 0, Some 0, Some 0, Some 0])"
proof -
  from not_isl_Inr [OF example_GPUParams_ctor] obtain g w' where
    a: "GPUParams_ctor example_hip 0 3 example_world = Inr (g, w')" by fastforce
  have net: "learnable_params (solvers example_world 0) = [10, 11]"
    by (simp add: example_world_def example_solver_def)
  from GPUParams_ctor_buffers [OF a] obtain cells where
    "mem w' (block (data_' g)) = Some (3, cells)" and "length cells = size_' g" and
    "size_' g = 5" and "take 5 cells = [Some 1, Some 2, Some 3, Some 4, Some 5]" and
    "mem w' (block (diff_' g)) = Some (3, replicate (size_' g) (Some 0))"
    by (auto simp: net example_count_sum example_host_values
        simp del: count_sum_Cons host_values_Cons)
  then show ?thesis using a by (auto simp: numeral_eq_Suc)
qed

section \<open>The coordinator: proofs\<close>

lemma new_P2PSync_Some:
  assumes "new_P2PSync h rs (Some par) prm w = Inr (a, w')"
  shows "a = next_sync w \<and> next_sync w' = Suc (next_sync w) \<and> next_solver w' = Suc (next_solver w)
       \<and> (\<forall>x. x \<noteq> a \<longrightarrow> p2psyncs w' x = p2psyncs w x)
       \<and> (\<forall>s. s \<noteq> next_solver w \<longrightarrow> solvers w' s = solvers w s)
       \<and> param (solvers w' (next_solver w)) = prm
       \<and> device_' (p2psyncs w' a) = device_id prm
       \<and> parent_' (p2psyncs w' a) = Some par
       \<and> children_' (p2psyncs w' a) = []
       \<and> solver_' (p2psyncs w' a) = next_solver w"
proof -
  let ?w0 = "w\<lparr>next_sync := Suc (next_sync w)\<rparr>"
  from assms have a: "a = next_sync w" and
    c: "P2PSync_ctor h (next_sync w) rs (Some par) prm ?w0 = Inr w'"
    by (auto simp: new_P2PSync_def and_then_eq_Inr)
  from c obtain base w1 w2 slv w3 w4 pg w5 w6 where
    s1: "GPUParams_ctor h rs (device_id prm) ?w0 = Inr (base, w1)" and
    s2: "hipSetDevice h (device_id prm) w1 = Inr w2" and
    s3: "ctor_solver rs (Some par) prm w2 = (slv, w3)" and
    s4: "configure base slv w3 = Inr w4" and
    s5: "ctor_peer h (device_id prm) (size_' base) (Some par) (add_callback slv (next_sync w) w4) = Inr (pg, w5)" and
    s6: "hipSetDevice h (current_device w1) w5 = Inr w6" and
    w': "w' = w6\<lparr>p2psyncs := (p2psyncs w6)(next_sync w :=
              \<lparr>size_' = size_' base, data_' = data_' base, diff_' = diff_' base,
               device_' = device_id prm, parent_' = Some par, children_' = [], queue_' = [],
               initial_iter_' = iter (solvers w1 rs), solver_' = slv, parent_grads_' = pg\<rparr>)\<rparr>"
    by (rule P2PSync_ctor_Inr)
  from GPUParams_ctor_frame [OF s1] obtain bl1 m1 where
    w1: "w1 = ?w0\<lparr>blobs := bl1, mem := m1, next_block := Suc (Suc (next_block ?w0))\<rparr>" by blast
  note w2 = hipSetDevice_Inr [OF s2]
  from ctor_solver_Some [of rs par prm w2] s3 obtain bl3 nb3 lp3 where
    slv: "slv = next_solver w2" and
    w3: "w3 = w2\<lparr>blobs := bl3, next_blob := nb3,
                solvers := (solvers w2)(next_solver w2 :=
                  \<lparr>param = prm, learnable_params = lp3, iter = 0, callbacks = []\<rparr>),
                next_solver := Suc (next_solver w2), root_solver_flag := True\<rparr>"
    by auto
  from configure_frame [OF s4] obtain bl4 m4 where w4: "w4 = w3\<lparr>blobs := bl4, mem := m4\<rparr>" by blast
  from ctor_peer_Some [OF s5] obtain m5 pe5 where
    w5: "w5 = (add_callback slv (next_sync w) w4)\<lparr>peer_enabled := pe5, mem := m5,
               next_block := Suc (next_block (add_callback slv (next_sync w) w4)),
               current_device := device_id prm\<rparr>" by blast
  note w6 = hipSetDevice_Inr [OF s6]
  have ns: "next_solver w2 = next_solver w" using w2 w1 by simp
  from w' w6 w5 w4 w3 w2 w1 slv a ns show ?thesis
    by (simp add: add_callback_def)
qed

lemma find_parent_step_cases:
  "find_parent_step w this syncs wanted j found = found
     \<and> (\<forall>s. (if j = 0 then Some this else syncs ! j) = Some s \<longrightarrow> dev_of w s \<noteq> wanted)
   \<or> (\<exists>s. (if j = 0 then Some this else syncs ! j) = Some s \<and> dev_of w s = wanted
          \<and> find_parent_step w this syncs wanted j found = Some s)"
  by (cases "if j = 0 then Some this else syncs ! j")
    (simp_all add: find_parent_step_def dev_of_def)

lemma find_parent_fold:
  "parent_found w this syncs wanted n (fold (find_parent_step w this syncs wanted) [0 ..< n] None)"
proof (induction n)
  case 0
  then show ?case by (simp add: parent_found_def)
next
  case (Suc n)
  let ?r0 = "fold (find_parent_step w this syncs wanted) [0 ..< n] None"
  have r: "fold (find_parent_step w this syncs wanted) [0 ..< Suc n] None
             = find_parent_step w this syncs wanted n ?r0" by simp
  from find_parent_step_cases [of w this syncs wanted n ?r0] show ?case
  proof
    assume a: "find_parent_step w this syncs wanted n ?r0 = ?r0
      \<and> (\<forall>s. (if n = 0 then Some this else syncs ! n) = Some s \<longrightarrow> dev_of w s \<noteq> wanted)"
    show ?thesis
    proof (cases ?r0)
      case None
      with a Suc.IH have
        "(0 < Suc n \<longrightarrow> dev_of w this \<noteq> wanted)
         \<and> (\<forall>j<Suc n. \<forall>a. 0 < j \<longrightarrow> syncs ! j = Some a \<longrightarrow> dev_of w a \<noteq> wanted)"
        by (cases "n = 0") (auto simp: parent_found_def less_Suc_eq)
      with a None r show ?thesis by (simp add: parent_found_def)
    next
      case (Some p)
      with Suc.IH have "dev_of w p = wanted \<and> (p = this \<or> (\<exists>j<Suc n. 0 < j \<and> syncs ! j = Some p))"
        by (auto simp: parent_found_def less_Suc_eq)
      with a Some r show ?thesis by (simp add: parent_found_def)
    qed
  next
    assume "\<exists>s. (if n = 0 then Some this else syncs ! n) = Some s \<and> dev_of w s = wanted
          \<and> find_parent_step w this syncs wanted n ?r0 = Some s"
    then obtain s where s: "(if n = 0 then Some this else syncs ! n) = Some s"
      "dev_of w s = wanted" "find_parent_step w this syncs wanted n ?r0 = Some s" by blast
    from s(1) have "s = this \<or> (\<exists>j<Suc n. 0 < j \<and> syncs ! j = Some s)"
      by (cases "n = 0") auto
    with s r show ?thesis by (simp add: parent_found_def)
  qed
qed

lemma find_parent_Some:
  assumes "find_parent w this syncs wanted = Some p"
  shows "dev_of w p = wanted \<and> (p = this \<or> (\<exists>j<length syncs. 0 < j \<and> syncs ! j = Some p))"
  using find_parent_fold [of w this syncs wanted "length syncs"] assms
  by (simp add: find_parent_def parent_found_def)

lemma find_parent_None:
  assumes "find_parent w this syncs wanted = None"
  shows "(0 < length syncs \<longrightarrow> dev_of w this \<noteq> wanted)
       \<and> (\<forall>j<length syncs. \<forall>a. 0 < j \<longrightarrow> syncs ! j = Some a \<longrightarrow> dev_of w a \<noteq> wanted)"
  using find_parent_fold [of w this syncs wanted "length syncs"] assms
  by (simp add: find_parent_def parent_found_def)

lemma prepare_slot_cases:
  assumes "prepare_slot h this pairs i (prm, syncs, w) = Inr s'"
  obtains
    (same) "s' = (prm, syncs, w)"
      "syncs ! i \<noteq> None \<or> find_parent w this syncs (parent (pairs ! i)) = None"
  | (fill) par a w1 where "syncs ! i = None"
      "find_parent w this syncs (parent (pairs ! i)) = Some par"
      "new_P2PSync h (solver_' (p2psyncs w this)) (Some par)
         (prm\<lparr>device_id := device (pairs ! i)\<rparr>) w = Inr (a, w1)"
      "s' = (prm\<lparr>device_id := device (pairs ! i)\<rparr>, syncs[i := Some a],
             w1\<lparr>p2psyncs := (p2psyncs w1)
                  (par := (p2psyncs w1 par)
                     \<lparr>children_' := children_' (p2psyncs w1 par) @ [a]\<rparr>)\<rparr>)"
  using assms
  by (auto simp: prepare_slot_def Let_def and_then_eq_Inr split: if_splits option.splits)

text \<open>An object that the search can return is allocated, and so are its solver and its children.\<close>

lemma prepared_allocated:
  assumes "prepared this pairs syncs w" and "p = this \<or> Some p \<in> set syncs"
  shows "p < next_sync w \<and> solver_' (p2psyncs w p) < next_solver w
       \<and> (\<forall>c\<in>set (children_' (p2psyncs w p)). c < next_sync w)"
proof (cases "p = this")
  case True
  with assms(1) show ?thesis by (simp add: prepared_def root_ready_def list_all_iff)
next
  case False
  with assms(2) obtain j where "j < length syncs" "syncs ! j = Some p"
    by (metis in_set_conv_nth)
  with assms(1) have "slot_ok this pairs syncs w j p" by (simp add: prepared_def)
  then show ?thesis by (simp add: slot_ok_def)
qed

lemma prepared_fill:
  assumes inv: "prepared this pairs syncs w"
    and i: "0 < i" "i < length syncs" and empty: "syncs ! i = None"
    and fp: "find_parent w this syncs (parent (pairs ! i)) = Some par"
    and new: "new_P2PSync h rs (Some par) prm1 w = Inr (a, w1)"
    and prm1: "device_id prm1 = device (pairs ! i)"
  shows "prepared this pairs (syncs[i := Some a])
           (w1\<lparr>p2psyncs := (p2psyncs w1)
                 (par := (p2psyncs w1 par)\<lparr>children_' := children_' (p2psyncs w1 par) @ [a]\<rparr>)\<rparr>)"
proof -
  define w' where "w' = w1\<lparr>p2psyncs := (p2psyncs w1)
                 (par := (p2psyncs w1 par)\<lparr>children_' := children_' (p2psyncs w1 par) @ [a]\<rparr>)\<rparr>"
  define ss where "ss = syncs[i := Some a]"
  have ss: "length ss = length syncs" "ss ! i = Some a" "\<And>j. j \<noteq> i \<Longrightarrow> ss ! j = syncs ! j"
    using i by (simp_all add: ss_def)
  from find_parent_Some [OF fp] have
    pd: "dev_of w par = parent (pairs ! i)" and
    pa: "par = this \<or> Some par \<in> set syncs" by (auto simp: in_set_conv_nth)
  note al = prepared_allocated [OF inv]
  from al [OF pa] have par_lt: "par < next_sync w" by simp
  from new_P2PSync_Some [OF new] have
    a: "a = next_sync w" and
    f_sync: "next_sync w1 = Suc (next_sync w)" and
    f_solver: "next_solver w1 = Suc (next_solver w)" and
    f_obj: "\<And>x. x \<noteq> a \<Longrightarrow> p2psyncs w1 x = p2psyncs w x" and
    f_slv: "\<And>s. s \<noteq> next_solver w \<Longrightarrow> solvers w1 s = solvers w s" and
    f_prm: "param (solvers w1 (next_solver w)) = prm1" and
    n_dev: "device_' (p2psyncs w1 a) = device_id prm1" and
    n_par: "parent_' (p2psyncs w1 a) = Some par" and
    n_ch: "children_' (p2psyncs w1 a) = []" and
    n_slv: "solver_' (p2psyncs w1 a) = next_solver w" by auto
  from par_lt a have pne: "par \<noteq> a" by simp
  have o_other: "\<And>x. x \<noteq> a \<Longrightarrow> x \<noteq> par \<Longrightarrow> p2psyncs w' x = p2psyncs w x"
    using f_obj by (simp add: w'_def)
  have o_par: "p2psyncs w' par = (p2psyncs w par)\<lparr>children_' := children_' (p2psyncs w par) @ [a]\<rparr>"
    using f_obj [OF pne] by (simp add: w'_def)
  have o_new: "p2psyncs w' a = p2psyncs w1 a" using pne by (simp add: w'_def)
  have w'_next: "next_sync w' = Suc (next_sync w)" "next_solver w' = Suc (next_solver w)"
    "solvers w' = solvers w1"
    using f_sync f_solver by (simp_all add: w'_def)
  have same: "solver_' (p2psyncs w' x) = solver_' (p2psyncs w x)
              \<and> device_' (p2psyncs w' x) = device_' (p2psyncs w x)
              \<and> parent_' (p2psyncs w' x) = parent_' (p2psyncs w x)
              \<and> children_' (p2psyncs w' x)
                  = (if x = par then children_' (p2psyncs w x) @ [a] else children_' (p2psyncs w x))"
    if "x \<noteq> a" for x
    using that o_other [of x] o_par by (cases "x = par") simp_all
  have dev_same: "dev_of w' x = dev_of w x"
    if "x \<noteq> a" "solver_' (p2psyncs w x) < next_solver w" for x
    using that same [of x] f_slv [of "solver_' (p2psyncs w x)"] w'_next by (simp add: dev_of_def)
  have dev_new: "dev_of w' a = device (pairs ! i)"
    using o_new n_slv f_prm prm1 w'_next by (simp add: dev_of_def)
  have ch_lt: "\<forall>c\<in>set (children_' (p2psyncs w' x)). c < next_sync w'"
    if "x \<noteq> a" "\<forall>c\<in>set (children_' (p2psyncs w x)). c < next_sync w" for x
    using that same [of x] w'_next a by (auto simp: less_Suc_eq)
  have filled_lt: "b < a" if "j < length syncs" "syncs ! j = Some b" for j b
  proof -
    from that have "Some b \<in> set syncs" by (metis nth_mem)
    with al [of b] a show ?thesis by simp
  qed
  have this_ne: "this \<noteq> a" using al [of this] a by simp
  have keep: "Some p \<in> set ss" if "Some p \<in> set syncs" for p
  proof -
    from that obtain j where j: "j < length syncs" "syncs ! j = Some p" by (metis in_set_conv_nth)
    with empty have "j \<noteq> i" by auto
    with j ss have "j < length ss" "ss ! j = Some p" by simp_all
    then show ?thesis by (metis nth_mem)
  qed
  have len: "length ss = length pairs" using inv ss by (simp add: prepared_def)
  have root: "root_ready w' this"
  proof -
    from inv have "root_ready w this" by (simp add: prepared_def)
    then show ?thesis
      using same [OF this_ne] ch_lt [OF this_ne] w'_next
      by (simp add: root_ready_def list_all_iff less_Suc_eq)
  qed
  have rdev: "dev_of w' this = device (pairs ! 0)"
    using inv dev_same [OF this_ne] by (simp add: prepared_def root_ready_def)
  have new_ok: "slot_ok this pairs ss w' i a"
  proof -
    have "\<forall>j<length ss. j \<noteq> i \<longrightarrow> ss ! j \<noteq> Some a"
      using filled_lt ss by fastforce
    moreover have "a \<notin> set (children_' (p2psyncs w par))"
      using al [OF pa] a by auto
    then have "count_list (children_' (p2psyncs w' par)) a = 1"
      using same [OF pne] by (simp add: count_list_0_iff)
    moreover have "par = this \<or> Some par \<in> set ss" using pa keep by blast
    moreover have "dev_of w' par = parent (pairs ! i)"
      using dev_same [OF pne] al [OF pa] pd by simp
    ultimately show ?thesis
      using this_ne w'_next a o_new n_dev n_par n_ch n_slv prm1 dev_new
      by (simp add: slot_ok_def)
  qed
  have old_ok: "slot_ok this pairs ss w' j b"
    if j: "j < length syncs" "j \<noteq> i" and b: "syncs ! j = Some b" for j b
  proof -
    from inv j b have ok: "slot_ok this pairs syncs w j b" by (simp add: prepared_def)
    from filled_lt [OF j(1) b] have bne: "b \<noteq> a" by simp
    from ok obtain p where
      p: "parent_' (p2psyncs w b) = Some p" "p = this \<or> Some p \<in> set syncs"
         "dev_of w p = parent (pairs ! j)" "count_list (children_' (p2psyncs w p)) b = 1"
      by (auto simp: slot_ok_def)
    from al [OF p(2)] a have pne': "p \<noteq> a" by auto
    have "count_list (children_' (p2psyncs w' p)) b = 1"
      using same [OF pne'] p(4) bne by (cases "p = par") simp_all
    moreover have "dev_of w' p = parent (pairs ! j)"
      using dev_same [OF pne'] al [OF p(2)] p(3) by simp
    moreover have "p = this \<or> Some p \<in> set ss" using p(2) keep by blast
    moreover have "parent_' (p2psyncs w' b) = Some p" using same [OF bne] p(1) by simp
    ultimately have par_ok: "\<exists>p. parent_' (p2psyncs w' b) = Some p \<and> (p = this \<or> Some p \<in> set ss)
              \<and> dev_of w' p = parent (pairs ! j)
              \<and> count_list (children_' (p2psyncs w' p)) b = 1" by blast
    have inj: "\<forall>k<length ss. k \<noteq> j \<longrightarrow> ss ! k \<noteq> Some b"
    proof (intro allI impI)
      fix k assume k: "k < length ss" "k \<noteq> j"
      show "ss ! k \<noteq> Some b"
      proof (cases "k = i")
        case True
        with k bne ss show ?thesis by simp
      next
        case False
        with k ok ss show ?thesis by (simp add: slot_ok_def)
      qed
    qed
    from ok have "\<forall>c\<in>set (children_' (p2psyncs w b)). c < next_sync w" by (simp add: slot_ok_def)
    from ch_lt [OF bne this] have ch: "\<forall>c\<in>set (children_' (p2psyncs w' b)). c < next_sync w'" .
    from ok have "solver_' (p2psyncs w b) < next_solver w" by (simp add: slot_ok_def)
    from dev_same [OF bne this] this ok same [OF bne] w'_next par_ok inj ch
    show ?thesis by (simp add: slot_ok_def)
  qed
  have "0 < j \<and> slot_ok this pairs ss w' j b"
    if "j < length ss" "ss ! j = Some b" for j b
  proof (cases "j = i")
    case True
    with that i ss have "b = a" by simp
    with True i new_ok show ?thesis by simp
  next
    case False
    with that ss have "j < length syncs" "syncs ! j = Some b" by simp_all
    with inv old_ok [OF _ False] show ?thesis by (simp add: prepared_def)
  qed
  with len root rdev have "prepared this pairs ss w'" by (simp add: prepared_def)
  then show ?thesis by (simp only: ss_def w'_def)
qed

lemma prepare_slot_step:
  assumes inv: "prepared this pairs syncs w" and i: "0 < i" "i < length pairs"
    and step: "prepare_slot h this pairs i (prm, syncs, w) = Inr (prm', syncs', w')"
  shows "prepared this pairs syncs' w'
       \<and> (\<forall>j. filled syncs j \<longrightarrow> filled syncs' j)
       \<and> ((\<exists>j<length pairs. filled syncs j \<and> device (pairs ! j) = parent (pairs ! i))
            \<longrightarrow> filled syncs' i)"
proof -
  from inv have len: "length syncs = length pairs" by (simp add: prepared_def)
  from step show ?thesis
  proof (cases rule: prepare_slot_cases)
    case same
    note why = same(2)
    have "filled syncs i"
      if "\<exists>j<length pairs. filled syncs j \<and> device (pairs ! j) = parent (pairs ! i)"
    proof (rule ccontr)
      assume nf: "\<not> filled syncs i"
      with why have none: "find_parent w this syncs (parent (pairs ! i)) = None"
        by (simp add: filled_def)
      from that obtain j where j: "j < length pairs" "filled syncs j"
        "device (pairs ! j) = parent (pairs ! i)" by blast
      show False
      proof (cases "j = 0")
        case True
        with inv j(3) have "dev_of w this = parent (pairs ! i)" by (simp add: prepared_def)
        with find_parent_None [OF none] len i show False by simp
      next
        case False
        with j(2) obtain b where b: "syncs ! j = Some b" by (auto simp: filled_def)
        with inv j(1) len have "slot_ok this pairs syncs w j b" by (simp add: prepared_def)
        then have "dev_of w b = device (pairs ! j)" by (simp add: slot_ok_def)
        with find_parent_None [OF none] j(1,3) len False b show False by simp
      qed
    qed
    with same(1) inv show ?thesis by auto
  next
    case fill
    note empty = fill(1) and fp = fill(2) and new = fill(3) and res = fill(4)
    from i len have i': "i < length syncs" by simp
    from prepared_fill [OF inv i(1) i' empty fp new] res
    have "prepared this pairs syncs' w'" by simp
    moreover from res i' have "filled syncs' i" by (simp add: filled_def)
    moreover have "filled syncs' j" if "filled syncs j" for j
      using that res empty i' by (cases "j = i") (auto simp: filled_def)
    ultimately show ?thesis by blast
  qed
qed

lemma prepare_sweep_step:
  assumes "prepare_sweep h this pairs is (prm, syncs, w) = Inr (prm', syncs', w')"
    and "prepared this pairs syncs w"
    and "\<forall>i\<in>set is. 0 < i \<and> i < length pairs"
  shows "prepared this pairs syncs' w'
       \<and> (\<forall>j. filled syncs j \<longrightarrow> filled syncs' j)
       \<and> (\<forall>i\<in>set is. (\<exists>j<length pairs. filled syncs j \<and> device (pairs ! j) = parent (pairs ! i))
            \<longrightarrow> filled syncs' i)"
  using assms
proof (induction "is" arbitrary: prm syncs w)
  case Nil
  then show ?case by simp
next
  case (Cons i "is")
  from Cons.prems(1) obtain prm1 syncs1 w1 where
    s1: "prepare_slot h this pairs i (prm, syncs, w) = Inr (prm1, syncs1, w1)" and
    s2: "prepare_sweep h this pairs is (prm1, syncs1, w1) = Inr (prm', syncs', w')"
    by (auto simp: and_then_eq_Inr)
  from Cons.prems(3) have i: "0 < i" "i < length pairs" and
    rest: "\<forall>i\<in>set is. 0 < i \<and> i < length pairs" by simp_all
  from prepare_slot_step [OF Cons.prems(2) i s1] have
    p1: "prepared this pairs syncs1 w1" and
    m1: "\<forall>j. filled syncs j \<longrightarrow> filled syncs1 j" and
    f1: "(\<exists>j<length pairs. filled syncs j \<and> device (pairs ! j) = parent (pairs ! i))
            \<longrightarrow> filled syncs1 i" by blast+
  from Cons.IH [OF s2 p1 rest] have
    p2: "prepared this pairs syncs' w'" and
    m2: "\<forall>j. filled syncs1 j \<longrightarrow> filled syncs' j" and
    f2: "\<forall>i\<in>set is. (\<exists>j<length pairs. filled syncs1 j \<and> device (pairs ! j) = parent (pairs ! i))
            \<longrightarrow> filled syncs' i" by blast+
  have "filled syncs' k"
    if "k \<in> set (i # is)"
      "\<exists>j<length pairs. filled syncs j \<and> device (pairs ! j) = parent (pairs ! k)" for k
  proof (cases "k = i")
    case True
    with that f1 m2 show ?thesis by blast
  next
    case False
    with that have "k \<in> set is" by simp
    moreover from that(2) m1
    have "\<exists>j<length pairs. filled syncs1 j \<and> device (pairs ! j) = parent (pairs ! k)" by blast
    ultimately show ?thesis using f2 by blast
  qed
  with p2 m1 m2 show ?case by blast
qed

lemma reach_Suc:
  "reach ps (Suc k) i \<longleftrightarrow> i = 0 \<or> (\<exists>j<length ps. device (ps ! j) = parent (ps ! i) \<and> reach ps k j)"
  by (auto simp: list_ex_iff)

lemma prepare_attempts_step:
  assumes "prepare_attempts h this pairs n (prm, syncs, w) = Inr (prm', syncs', w')"
    and "prepared this pairs syncs w"
    and "\<forall>i<length pairs. reach pairs k i \<longrightarrow> filled syncs i"
  shows "prepared this pairs syncs' w'
       \<and> (\<forall>i<length pairs. reach pairs (k + n) i \<longrightarrow> filled syncs' i)"
  using assms
proof (induction n arbitrary: prm syncs w k)
  case 0
  then show ?case by simp
next
  case (Suc n)
  from Suc.prems(1) obtain prm1 syncs1 w1 where
    s1: "prepare_sweep h this pairs [1 ..< length pairs] (prm, syncs, w) = Inr (prm1, syncs1, w1)" and
    s2: "prepare_attempts h this pairs n (prm1, syncs1, w1) = Inr (prm', syncs', w')"
    by (auto simp: and_then_eq_Inr)
  have "\<forall>i\<in>set [1 ..< length pairs]. 0 < i \<and> i < length pairs" by simp
  from prepare_sweep_step [OF s1 Suc.prems(2) this] have
    p1: "prepared this pairs syncs1 w1" and
    f1: "\<forall>i\<in>set [1 ..< length pairs].
           (\<exists>j<length pairs. filled syncs j \<and> device (pairs ! j) = parent (pairs ! i))
            \<longrightarrow> filled syncs1 i" by blast+
  have r1: "\<forall>i<length pairs. reach pairs (Suc k) i \<longrightarrow> filled syncs1 i"
  proof (intro allI impI)
    fix i assume i: "i < length pairs" and r: "reach pairs (Suc k) i"
    show "filled syncs1 i"
    proof (cases "i = 0")
      case True
      then show ?thesis by (simp add: filled_def)
    next
      case False
      with r [unfolded reach_Suc] obtain j where
        j: "j < length pairs" "device (pairs ! j) = parent (pairs ! i)" "reach pairs k j"
        by blast
      with Suc.prems(3) have "filled syncs j" by blast
      with j f1 i False show ?thesis by auto
    qed
  qed
  from Suc.IH [OF s2 p1 r1] show ?case by simp
qed

text \<open>
  C4: when the planner's pair list is an in-tree rooted at pair 0 and the root
  replica's device is that of pair 0, then after \<open>Prepare\<close> returns, every slot \<open>i\<close>
  from 1 on holds a replica whose device is that of pair \<open>i\<close>, whose parent is the root
  or a replica in a slot with the parent device of pair \<open>i\<close>, and which is once in
  that parent's list of children.
\<close>

theorem Prepare_builds_tree:
  assumes planner: "compute h gpus [] = Inr pairs"
    and tree: "reaches_root pairs"
    and root: "dev_of w this = device (pairs ! 0)" "root_ready w this"
    and run: "Prepare h this gpus (replicate (length gpus) None) w = Inr (syncs, w')"
    and i: "0 < i" "i < length gpus"
  shows "\<exists>a p. syncs ! i = Some a
           \<and> device_' (p2psyncs w' a) = device (pairs ! i)
           \<and> parent_' (p2psyncs w' a) = Some p
           \<and> (p = this \<or> Some p \<in> set syncs)
           \<and> dev_of w' p = parent (pairs ! i)
           \<and> count_list (children_' (p2psyncs w' p)) a = 1"
proof -
  from compute_Inr [OF planner] have len: "length pairs = length gpus"
    by (auto simp: final_checks_def)
  let ?s0 = "replicate (length gpus) (None :: nat option)"
  from run planner obtain prm' where
    att: "prepare_attempts h this pairs (length pairs)
            (param (solvers w (solver_' (p2psyncs w this))), ?s0, w) = Inr (prm', syncs, w')"
    by (auto simp: Prepare_def and_then_eq_Inr)
  have p0: "prepared this pairs ?s0 w" using root len by (simp add: prepared_def)
  have f0: "\<forall>i<length pairs. reach pairs 0 i \<longrightarrow> filled ?s0 i" by (simp add: filled_def)
  from prepare_attempts_step [OF att p0 f0] have
    p: "prepared this pairs syncs w'" and
    f: "\<forall>i<length pairs. reach pairs (length pairs) i \<longrightarrow> filled syncs i" by simp_all
  from tree i len have "reach pairs (length pairs) i" by (simp add: reaches_root_def list_all_iff)
  with f i len obtain a where a: "syncs ! i = Some a" by (auto simp: filled_def)
  from p i len have "length syncs = length pairs" "i < length syncs" by (simp_all add: prepared_def)
  with p a have "slot_ok this pairs syncs w' i a" by (simp add: prepared_def)
  with a show ?thesis by (auto simp: slot_ok_def)
qed

lemma example_reaches_root:
  "reaches_root [DevicePair (- 1) 0, DevicePair 0 3, DevicePair 1 2, DevicePair 0 1]"
  by code_simp

lemma example_Prepare: "\<not> isl (Prepare example_hip 0 [0, 1, 2, 3] (replicate (length [0, 1, 2, 3 :: int]) None) root_world)"
  apply (simp only: Prepare_def compute_example and_then_Inr)
  apply (simp add: prepare_slot_def find_parent_def find_parent_step_def
      new_P2PSync_def eval_defs upt_rec)
  done

theorem Prepare_builds_tree_witness:
  "\<exists>syncs w'. Prepare example_hip 0 [0, 1, 2, 3] (replicate (length [0, 1, 2, 3 :: int]) None) root_world
       = Inr (syncs, w')
     \<and> (\<exists>a p. syncs ! 2 = Some a \<and> device_' (p2psyncs w' a) = 2
            \<and> parent_' (p2psyncs w' a) = Some p \<and> dev_of w' p = 1
            \<and> count_list (children_' (p2psyncs w' p)) a = 1)"
proof -
  from not_isl_Inr [OF example_Prepare] obtain syncs w' where
    run: "Prepare example_hip 0 [0, 1, 2, 3] (replicate (length [0, 1, 2, 3 :: int]) None) root_world
            = Inr (syncs, w')" by fastforce
  have root: "dev_of root_world 0 = device ([DevicePair (- 1) 0, DevicePair 0 3, DevicePair 1 2, DevicePair 0 1] ! 0)"
    "root_ready root_world 0"
    by (simp_all add: dev_of_def root_ready_def root_world_def example_world_def example_solver_def)
  from Prepare_builds_tree [OF compute_example example_reaches_root root run, of 2]
  have "\<exists>a p. syncs ! 2 = Some a \<and> device_' (p2psyncs w' a) = 2
            \<and> parent_' (p2psyncs w' a) = Some p \<and> dev_of w' p = 1
            \<and> count_list (children_' (p2psyncs w' p)) a = 1"
    by auto
  with run show ?thesis by blast
qed

section \<open>The gather round: proofs\<close>

subsection \<open>Memory\<close>







subsection \<open>The kernels and the steps\<close>

lemma caffe_gpu_add_Inr:
  assumes "caffe_gpu_add ar n a b y s = Inr s'"
  obtains as bs m where "read_cells a n (mem s) = Inr as" "read_cells b n (mem s) = Inr bs"
    "write_cells y (map2 (dtype_add ar) as bs) (mem s) = Inr m" "s' = s\<lparr>mem := m\<rparr>"
  using assms by (auto simp: caffe_gpu_add_def and_then_eq_Inr)



lemma sum_child_Inr:
  assumes "sum_child ar t s = Some (Inr s')"
  obtains c rest src as bs m where
    "queue_' (p2psyncs s t) = c # rest"
    "parent_grads_' (p2psyncs s c) = Some src"
    "read_cells src (size_' (p2psyncs s t)) (mem s) = Inr as"
    "read_cells (diff_' (p2psyncs s t)) (size_' (p2psyncs s t)) (mem s) = Inr bs"
    "write_cells (diff_' (p2psyncs s t)) (map2 (dtype_add ar) as bs) (mem s) = Inr m"
    "s' = s\<lparr>p2psyncs := (p2psyncs s)(t := (p2psyncs s t)\<lparr>queue_' := rest\<rparr>), mem := m\<rparr>"
proof -
  from assms obtain c rest where q: "queue_' (p2psyncs s t) = c # rest"
    by (auto simp: sum_child_def split: list.splits)
  let ?s1 = "s\<lparr>p2psyncs := (p2psyncs s)(t := (p2psyncs s t)\<lparr>queue_' := rest\<rparr>)\<rparr>"
  have pg: "parent_grads_' (p2psyncs ?s1 c) = parent_grads_' (p2psyncs s c)" by simp
  from assms q obtain src where
    src: "parent_grads_' (p2psyncs s c) = Some src" and
    add: "caffe_gpu_add ar (size_' (p2psyncs s t)) src (diff_' (p2psyncs s t)) (diff_' (p2psyncs s t)) ?s1 = Inr s'"
    by (auto simp: sum_child_def Let_def split: option.splits if_splits)
  from add obtain as bs m where
    "read_cells src (size_' (p2psyncs s t)) (mem ?s1) = Inr as"
    "read_cells (diff_' (p2psyncs s t)) (size_' (p2psyncs s t)) (mem ?s1) = Inr bs"
    "write_cells (diff_' (p2psyncs s t)) (map2 (dtype_add ar) as bs) (mem ?s1) = Inr m"
    "s' = ?s1\<lparr>mem := m\<rparr>"
    by (rule caffe_gpu_add_Inr)
  with q src that show thesis by simp
qed



subsection \<open>Sums in the order of arrival\<close>

lemma arrival_sum_Nil [simp]: "arrival_sum ar T [] x k = x"
  by (simp add: arrival_sum_def)




subsection \<open>What a ready tree gives\<close>





subsection \<open>The invariant\<close>















subsection \<open>Arithmetic that does not round\<close>




subsection \<open>The round\<close>






subsection \<open>The arithmetic of \<open>float\<close>\<close>

lemma round_to_0 [simp]: "round_to p 0 = 0"
  by (simp add: round_to_def)













subsection \<open>The hook run by one thread\<close>

lemma run_threads_append:
  "run_threads ar (xs @ ys) st = and_then (run_threads ar xs st) (run_threads ar ys)"
proof (induction xs arbitrary: st)
  case Nil
  then show ?case by simp
next
  case (Cons t ts)
  obtain pc w where st: "st = (pc, w)" by (cases st)
  show ?case
  proof (cases "thread_step ar t (pc t) w")
    case None
    with Cons.IH st show ?thesis by simp
  next
    case (Some r)
    with Cons.IH st show ?thesis by (cases r) auto
  qed
qed

lemma sum_child_children:
  assumes "sum_child ar t s = Some (Inr s')"
  shows "children_' (p2psyncs s' t) = children_' (p2psyncs s t)"
  using assms by (rule sum_child_Inr) simp

lemma sum_children_run:
  assumes "sum_children ar i t s = Some (Inr s')" and "pc t = Summing i"
    and "i \<le> length (children_' (p2psyncs s t))"
  shows "run_threads ar (replicate (length (children_' (p2psyncs s t)) - i) t) (pc, s)
           = Inr (pc(t := Summing (length (children_' (p2psyncs s t)))), s')
       \<and> children_' (p2psyncs s' t) = children_' (p2psyncs s t)"
  using assms
proof (induction ar i t s arbitrary: pc rule: sum_children.induct)
  case (1 ar i t s)
  let ?n = "length (children_' (p2psyncs s t))"
  note eq = sum_children.simps [of ar i t s]
  show ?case
  proof (cases "i < ?n")
    case False
    with "1.prems" have "i = ?n" "s' = s" by (simp_all add: eq)
    with "1.prems"(2) show ?thesis by (auto simp: fun_upd_def)
  next
    case True
    with "1.prems"(1) obtain s1 where
      c: "sum_child ar t s = Some (Inr s1)" and r: "sum_children ar (Suc i) t s1 = Some (Inr s')"
      by (auto simp: eq split: option.splits sum.splits)
    note ch = sum_child_children [OF c]
    from True ch have le: "Suc i \<le> length (children_' (p2psyncs s1 t))" by simp
    have pc1: "(pc(t := Summing (Suc i))) t = Summing (Suc i)" by simp
    note IH = "1.IH" [OF True c refl r, of "pc(t := Summing (Suc i))", OF pc1 le]
    from IH [THEN conjunct1] have
      ih: "run_threads ar (replicate (?n - Suc i) t) (pc(t := Summing (Suc i)), s1)
             = Inr (pc(t := Summing ?n), s')"
      by (simp only: ch fun_upd_upd)
    from IH [THEN conjunct2] have
      ch': "children_' (p2psyncs s' t) = children_' (p2psyncs s t)" by (simp only: ch)
    from True have "replicate (?n - i) t = t # replicate (?n - Suc i) t"
      by (metis Suc_diff_Suc replicate_Suc)
    moreover from True c "1.prems"(2)
    have "thread_step ar t (pc t) s = Some (Inr (Summing (Suc i), s1))"
      by (simp add: thread_step_def)
    ultimately show ?thesis using ih ch' by (simp add: fun_upd_def)
  qed
qed

text \<open>
  A thread that runs its whole hook without being interrupted does what the hook as a
  function does.
\<close>

lemma on_gradients_ready_run:
  assumes "on_gradients_ready ar t s = Some (Inr s')" and "pc t = Summing 0"
  shows "run_threads ar (replicate (Suc (length (children_' (p2psyncs s t)))) t) (pc, s)
           = Inr (pc(t := Returned), s')"
proof -
  let ?n = "length (children_' (p2psyncs s t))"
  from assms(1) obtain s1 where
    a: "sum_children ar 0 t s = Some (Inr s1)" and b: "send_gradients ar t s1 = Inr s'"
    by (auto simp: on_gradients_ready_def split: option.splits sum.splits)
  from sum_children_run [OF a, of pc, OF assms(2)] have
    r: "run_threads ar (replicate ?n t) (pc, s) = Inr (pc(t := Summing ?n), s1)" and
    ch: "children_' (p2psyncs s1 t) = children_' (p2psyncs s t)" by simp_all
  have "replicate (Suc ?n) t = replicate ?n t @ [t]" by (simp add: replicate_append_same)
  with r b ch show ?thesis
    by (simp add: run_threads_append thread_step_def del: replicate_Suc)
qed


end
